theory Spec2Isabelle
  imports Complex_Main
begin

section \<open>Tensors and the library operations the adaptive softmax uses\<close>

text \<open>
  The model follows \<^verbatim>\<open>src/model.py\<close> (classes \<^verbatim>\<open>AdaptiveSoftmax\<close> and
  \<^verbatim>\<open>AdaptiveLoss\<close>) and the construction site in \<^verbatim>\<open>src/main.py\<close>.
  Floating-point numbers are modelled by exact reals, token ids and cutoffs by unbounded
  integers (a mask bounds every difference that is computed, so 64-bit wrap-around plays no
  part). A one-dimensional tensor is a list, a two-dimensional tensor the list of its rows.
  The empty list is the tensor without dimensions: asking it for a size, a minimum or a
  maximum raises.
\<close>

datatype error =
    IndexError | AttributeError | AssertionError | RuntimeError | BdbQuit

type_synonym LongTensor = "int list"
type_synonym ByteTensor = "bool list"
type_synonym Tensor = "real list list"

definition ge :: "LongTensor \<Rightarrow> int \<Rightarrow> ByteTensor" where
  "ge target c = map (\<lambda>t. c \<le> t) target"

definition lt :: "LongTensor \<Rightarrow> int \<Rightarrow> ByteTensor" where
  "lt target c = map (\<lambda>t. t < c) target"

definition mul :: "ByteTensor \<Rightarrow> ByteTensor \<Rightarrow> ByteTensor" where
  "mul a b = map (\<lambda>(x, y). x \<and> y) (zip a b)"

definition mask_sum :: "ByteTensor \<Rightarrow> nat" where
  "mask_sum msk = length (filter (\<lambda>b. b) msk)"

definition nonzero :: "ByteTensor \<Rightarrow> nat list" where
  "nonzero msk = filter (\<lambda>n. msk ! n) [0..<length msk]"

definition masked_select :: "LongTensor \<Rightarrow> ByteTensor \<Rightarrow> LongTensor" where
  "masked_select target msk = map fst (filter snd (zip target msk))"

definition masked_fill :: "LongTensor \<Rightarrow> ByteTensor \<Rightarrow> int \<Rightarrow> LongTensor" where
  "masked_fill t msk v = map (\<lambda>(x, b). if b then v else x) (zip t msk)"

definition add_scalar :: "LongTensor \<Rightarrow> int \<Rightarrow> LongTensor" where
  "add_scalar t c = map (\<lambda>x. x + c) t"

text \<open>
  The membership test of vocabulary bin \<open>i\<close>, the expression
  \<^verbatim>\<open>target.ge(self.cutoff[i]).mul(target.lt(self.cutoff[i + 1]))\<close> that
  \<^verbatim>\<open>set_target\<close> and \<^verbatim>\<open>remap_target\<close> both evaluate.
\<close>

definition bin_mask :: "int list \<Rightarrow> nat \<Rightarrow> LongTensor \<Rightarrow> ByteTensor" where
  "bin_mask cutoff i target = mul (ge target (cutoff ! i)) (lt target (cutoff ! (i + 1)))"

text \<open>The same test on a single target id: entry \<open>n\<close> of the mask is the test of target \<open>n\<close>.\<close>

definition in_bin :: "int list \<Rightarrow> nat \<Rightarrow> int \<Rightarrow> bool" where
  "in_bin cutoff i t = (cutoff ! i \<le> t \<and> t < cutoff ! (i + 1))"

section \<open>AdaptiveLoss.remap_target\<close>

record AdaptiveLoss =
  loss_cutoff :: "int list"

definition remap_step ::
  "int list \<Rightarrow> LongTensor \<Rightarrow> LongTensor \<times> LongTensor option list \<Rightarrow> nat
    \<Rightarrow> LongTensor \<times> LongTensor option list" where
  "remap_step cutoff target st i =
     (let msk = bin_mask cutoff i target;
          first = masked_fill (fst st) msk (cutoff ! 0 + int i)
      in if mask_sum msk > 0
         then (first, snd st @ [Some (add_scalar (masked_select target msk) (- (cutoff ! i)))])
         else (first, snd st @ [None]))"

definition remap_target :: "AdaptiveLoss \<Rightarrow> LongTensor \<Rightarrow> LongTensor option list" where
  "remap_target self target =
     (let st = foldl (remap_step (loss_cutoff self) target) (target, [])
                 [0..<length (loss_cutoff self) - 1]
      in Some (fst st) # snd st)"

definition AdaptiveLoss_init :: "int list \<Rightarrow> AdaptiveLoss" where
  "AdaptiveLoss_init cutoff = \<lparr>loss_cutoff = cutoff\<rparr>"

section \<open>Linear layers, Sequential and LogSoftmax\<close>

text \<open>
  \<^verbatim>\<open>nn.Linear\<close> holds a weight matrix with one row per output feature and
  an optional bias; applied to a batch it maps every row \<open>x\<close> to
  \<open>W x + b\<close>, and raises when the batch is empty or a row has the wrong length.
\<close>

record Linear =
  in_features :: nat
  weight :: "real list list"
  bias :: "real list option"

definition dot :: "real list \<Rightarrow> real list \<Rightarrow> real" where
  "dot w x = sum_list (map (\<lambda>(a, b). a * b) (zip w x))"

definition Linear_row :: "Linear \<Rightarrow> real list \<Rightarrow> real list" where
  "Linear_row l x =
     (case bias l of
        None \<Rightarrow> map (\<lambda>w. dot w x) (weight l)
      | Some b \<Rightarrow> map (\<lambda>(w, c). dot w x + c) (zip (weight l) b))"

definition Linear_forward :: "Linear \<Rightarrow> Tensor \<Rightarrow> error + Tensor" where
  "Linear_forward l input =
     (if input = [] \<or> (\<exists>x \<in> set input. length x \<noteq> in_features l) then Inl RuntimeError
      else Inr (map (Linear_row l) input))"

definition Sequential_forward :: "Linear \<times> Linear \<Rightarrow> Tensor \<Rightarrow> error + Tensor" where
  "Sequential_forward seq input =
     (case Linear_forward (fst seq) input of
        Inl e \<Rightarrow> Inl e
      | Inr hidden \<Rightarrow> Linear_forward (snd seq) hidden)"

definition log_softmax_row :: "real list \<Rightarrow> real list" where
  "log_softmax_row x = map (\<lambda>v. v - ln (sum_list (map exp x))) x"

definition LogSoftmax :: "Tensor \<Rightarrow> Tensor" where
  "LogSoftmax t = map log_softmax_row t"

section \<open>Views on the columns of a tensor\<close>

definition narrow :: "Tensor \<Rightarrow> int \<Rightarrow> int \<Rightarrow> error + Tensor" where
  "narrow t start len =
     (if t = [] \<or> start < 0 \<or> len \<le> 0 \<or> (\<exists>r \<in> set t. int (length r) < start + len)
      then Inl RuntimeError
      else Inr (map (\<lambda>r. take (nat len) (drop (nat start) r)) t))"

definition expand :: "Tensor \<Rightarrow> int \<Rightarrow> Tensor" where
  "expand t n = map (\<lambda>r. concat (replicate (nat n) r)) t"

definition same_shape :: "Tensor \<Rightarrow> Tensor \<Rightarrow> bool" where
  "same_shape a b = (map length a = map length b)"

definition add :: "Tensor \<Rightarrow> Tensor \<Rightarrow> Tensor" where
  "add a b = map (\<lambda>(r, s). map (\<lambda>(x, y). x + y) (zip r s)) (zip a b)"

definition set_narrow :: "Tensor \<Rightarrow> int \<Rightarrow> Tensor \<Rightarrow> Tensor" where
  "set_narrow t start v =
     map (\<lambda>(r, w). take (nat start) r @ w @ drop (nat start + length w) r) (zip t v)"

definition zeros :: "nat \<Rightarrow> int \<Rightarrow> Tensor" where
  "zeros n k = replicate n (replicate (nat k) 0)"

definition index_select :: "Tensor \<Rightarrow> nat list \<Rightarrow> error + Tensor" where
  "index_select input idx =
     (if \<exists>n \<in> set idx. length input \<le> n then Inl RuntimeError
      else Inr (map (\<lambda>n. input ! n) idx))"

section \<open>AdaptiveSoftmax\<close>

record AdaptiveSoftmax =
  nhid :: int
  cutoff :: "int list"
  output_size :: int
  head :: Linear
  tail :: "(Linear \<times> Linear) list"
  id' :: "nat list option list option"

text \<open>
  The constructor asks the layer library for one head layer and two layers per bin. The
  library's constructor is a parameter \<open>nn_Linear in_features out_features bias\<close>:
  it picks the initial weights and may reject the sizes. Nothing in the constructor
  itself inspects the cutoffs; only \<^verbatim>\<open>cutoff[0]\<close> raises, on an empty list.
  The attribute \<^verbatim>\<open>id\<close> does not exist until \<^verbatim>\<open>set_target\<close> runs.
\<close>

fun init_tail ::
  "(int \<Rightarrow> int \<Rightarrow> bool \<Rightarrow> error + Linear) \<Rightarrow> int \<Rightarrow> int list \<Rightarrow> nat list
    \<Rightarrow> (Linear \<times> Linear) list \<Rightarrow> error + (Linear \<times> Linear) list" where
  "init_tail nn_Linear nh cs [] acc = Inr acc"
| "init_tail nn_Linear nh cs (i # rest) acc =
     (case nn_Linear nh (nh div 4 ^ i) False of
        Inl e \<Rightarrow> Inl e
      | Inr l1 \<Rightarrow>
          (case nn_Linear (nh div 4 ^ i) (cs ! (i + 1) - cs ! i) False of
             Inl e \<Rightarrow> Inl e
           | Inr l2 \<Rightarrow> init_tail nn_Linear nh cs rest (acc @ [(l1, l2)])))"

definition AdaptiveSoftmax_init ::
  "(int \<Rightarrow> int \<Rightarrow> bool \<Rightarrow> error + Linear) \<Rightarrow> int \<Rightarrow> int list \<Rightarrow> error + AdaptiveSoftmax" where
  "AdaptiveSoftmax_init nn_Linear nh cs =
     (case cs of
        [] \<Rightarrow> Inl IndexError
      | c0 # _ \<Rightarrow>
          (case nn_Linear nh (c0 + int (length cs) - 1) True of
             Inl e \<Rightarrow> Inl e
           | Inr hd_layer \<Rightarrow>
               (case init_tail nn_Linear nh cs [0..<length cs - 1] [] of
                  Inl e \<Rightarrow> Inl e
                | Inr tl_layers \<Rightarrow>
                    Inr \<lparr>nhid = nh, cutoff = cs, output_size = c0 + int (length cs) - 1,
                         head = hd_layer, tail = tl_layers, id' = None\<rparr>)))"

text \<open>The shapes the constructor asks for, as a predicate on a constructed model.\<close>

definition Linear_shape :: "Linear \<Rightarrow> int \<Rightarrow> int \<Rightarrow> bool \<Rightarrow> bool" where
  "Linear_shape l i out b \<longleftrightarrow>
     int (in_features l) = i \<and> int (length (weight l)) = out \<and>
     list_all (\<lambda>w. length w = in_features l) (weight l) \<and>
     (case bias l of None \<Rightarrow> \<not> b | Some c \<Rightarrow> b \<and> length c = length (weight l))"

definition shaped :: "AdaptiveSoftmax \<Rightarrow> bool" where
  "shaped m \<longleftrightarrow>
     cutoff m \<noteq> [] \<and>
     output_size m = cutoff m ! 0 + int (length (cutoff m)) - 1 \<and>
     Linear_shape (head m) (nhid m) (output_size m) True \<and>
     length (tail m) = length (cutoff m) - 1 \<and>
     list_all (\<lambda>i. Linear_shape (fst (tail m ! i)) (nhid m) (nhid m div 4 ^ i) False \<and>
                   Linear_shape (snd (tail m ! i)) (nhid m div 4 ^ i)
                     (cutoff m ! (i + 1) - cutoff m ! i) False)
       [0..<length (tail m)]"

text \<open>The invariant of the cutoffs: \<open>0 < c0 < c1 < ... < V\<close>.\<close>

definition valid_cutoff :: "int list \<Rightarrow> bool" where
  "valid_cutoff cs \<longleftrightarrow> cs \<noteq> [] \<and> 0 < cs ! 0 \<and> sorted_wrt (\<lambda>a b. a < b) cs"

text \<open>
  \<^verbatim>\<open>set_target\<close> stores, for every bin, the batch positions whose target lies in
  the bin, or \<^verbatim>\<open>None\<close> when there are none (the message it prints is not modelled).
\<close>

definition set_target :: "AdaptiveSoftmax \<Rightarrow> LongTensor \<Rightarrow> AdaptiveSoftmax" where
  "set_target self target =
     self\<lparr>id' := Some (map (\<lambda>i. let msk = bin_mask (cutoff self) i target
                                 in if mask_sum msk > 0 then Some (nonzero msk) else None)
                        [0..<length (cutoff self) - 1])\<rparr>"

text \<open>
  \<^verbatim>\<open>forward\<close> returns the list of outputs together with the log of the tail
  classifiers it has called, in call order.
\<close>

fun forward_loop ::
  "AdaptiveSoftmax \<Rightarrow> Tensor \<Rightarrow> nat list option list \<Rightarrow> nat list
    \<Rightarrow> Tensor option list \<times> nat list \<Rightarrow> error + Tensor option list \<times> nat list" where
  "forward_loop self input ids [] st = Inr st"
| "forward_loop self input ids (i # rest) st =
     (case ids ! i of
        None \<Rightarrow> forward_loop self input ids rest (fst st @ [None], snd st)
      | Some sel \<Rightarrow>
          (if length (tail self) \<le> i then Inl IndexError
           else case index_select input sel of
                  Inl e \<Rightarrow> Inl e
                | Inr rows \<Rightarrow>
                    (case Sequential_forward (tail self ! i) rows of
                       Inl e \<Rightarrow> Inl e
                     | Inr y \<Rightarrow>
                         forward_loop self input ids rest (fst st @ [Some y], snd st @ [i]))))"

definition AdaptiveSoftmax_forward ::
  "AdaptiveSoftmax \<Rightarrow> Tensor \<Rightarrow> error + Tensor option list \<times> nat list" where
  "AdaptiveSoftmax_forward self input =
     (case Linear_forward (head self) input of
        Inl e \<Rightarrow> Inl e
      | Inr head_out \<Rightarrow>
          (case id' self of
             None \<Rightarrow> Inl AttributeError
           | Some ids \<Rightarrow> forward_loop self input ids [0..<length ids] ([Some head_out], [])))"

text \<open>
  \<^verbatim>\<open>log_prob\<close>: the head log-softmax is added into the first
  \<^verbatim>\<open>output_size\<close> columns of a zero matrix; then every bin overwrites its own
  columns with the head entry of the bin plus the bin's tail log-softmax.
\<close>

definition log_prob_step ::
  "AdaptiveSoftmax \<Rightarrow> Tensor \<Rightarrow> Tensor \<Rightarrow> Tensor \<Rightarrow> nat \<Rightarrow> error + Tensor" where
  "log_prob_step self input lsm_head prob i =
     (if length (cutoff self) \<le> i + 1 then Inl IndexError
      else
        let pos = cutoff self ! i;
            i_size = cutoff self ! (i + 1) - pos
        in case narrow lsm_head (cutoff self ! 0 + int i) 1 of
             Inl e \<Rightarrow> Inl e
           | Inr column \<Rightarrow>
               (if i_size < 0 then Inl RuntimeError
                else
                  let buffer = expand column i_size
                  in case Sequential_forward (tail self ! i) input of
                       Inl e \<Rightarrow> Inl e
                     | Inr tail_out \<Rightarrow>
                         (let lsm_tail = LogSoftmax tail_out
                          in case narrow prob pos i_size of
                               Inl e \<Rightarrow> Inl e
                             | Inr view \<Rightarrow>
                                 (if \<not> same_shape view buffer \<or> \<not> same_shape buffer lsm_tail
                                  then Inl RuntimeError
                                  else Inr (set_narrow prob pos (add buffer lsm_tail))))))"

fun log_prob_loop ::
  "AdaptiveSoftmax \<Rightarrow> Tensor \<Rightarrow> Tensor \<Rightarrow> nat list \<Rightarrow> Tensor \<Rightarrow> error + Tensor" where
  "log_prob_loop self input lsm_head [] prob = Inr prob"
| "log_prob_loop self input lsm_head (i # rest) prob =
     (case log_prob_step self input lsm_head prob i of
        Inl e \<Rightarrow> Inl e
      | Inr prob' \<Rightarrow> log_prob_loop self input lsm_head rest prob')"

definition log_prob :: "AdaptiveSoftmax \<Rightarrow> Tensor \<Rightarrow> error + Tensor" where
  "log_prob self input =
     (case Linear_forward (head self) input of
        Inl e \<Rightarrow> Inl e
      | Inr head_out \<Rightarrow>
          (if cutoff self = [] then Inl IndexError
           else
             let batch_size = length head_out;
                 prob = zeros batch_size (last (cutoff self));
                 lsm_head = LogSoftmax head_out
             in case narrow prob 0 (output_size self) of
                  Inl e \<Rightarrow> Inl e
                | Inr view \<Rightarrow>
                    (case narrow lsm_head 0 (output_size self) of
                       Inl e \<Rightarrow> Inl e
                     | Inr src \<Rightarrow>
                         (if \<not> same_shape view src then Inl RuntimeError
                          else log_prob_loop self input lsm_head [0..<length (tail self)]
                                 (set_narrow prob 0 (add view src))))))"

section \<open>AdaptiveLoss.forward\<close>

text \<open>
  \<^verbatim>\<open>nn.CrossEntropyLoss(size_average=False)\<close>: the sum over the batch of minus
  the log-softmax entry of the target class. It raises when the two batches differ in
  length or a class is not a column of the input.
\<close>

definition CrossEntropyLoss :: "Tensor \<Rightarrow> LongTensor \<Rightarrow> error + real" where
  "CrossEntropyLoss input target =
     (if input = [] \<or> length input \<noteq> length target \<or>
         (\<exists>(x, t) \<in> set (zip input target). t < 0 \<or> int (length x) \<le> t)
      then Inl RuntimeError
      else Inr (sum_list (map (\<lambda>(x, t). - (log_softmax_row x ! nat t)) (zip input target))))"

text \<open>
  The handler \<^verbatim>\<open>except: import pdb; pdb.set_trace()\<close> swallows whatever the
  criterion raised and opens the debugger. What happens next is the operator's choice:
  resuming lets the loop go on, quitting (or an exhausted standard input) raises
  \<^verbatim>\<open>BdbQuit\<close>.
\<close>

datatype pdb_command = Continue | Quit

definition size1 :: "Tensor \<Rightarrow> error + nat" where
  "size1 t = (case t of [] \<Rightarrow> Inl RuntimeError | r # _ \<Rightarrow> Inr (length r))"

definition check_target :: "Tensor \<Rightarrow> LongTensor option list \<Rightarrow> nat \<Rightarrow> error + LongTensor" where
  "check_target x target i =
     (if length target \<le> i then Inl IndexError
      else case target ! i of
             None \<Rightarrow> Inl AttributeError
           | Some t \<Rightarrow>
               (if t = [] then Inl RuntimeError
                else if \<not> 0 \<le> Min (set t) then Inl AssertionError
                else case size1 x of
                       Inl e \<Rightarrow> Inl e
                     | Inr c \<Rightarrow>
                         (if Max (set t) \<le> int c then Inr t else Inl AssertionError)))"

fun loss_loop ::
  "pdb_command \<Rightarrow> Tensor option list \<Rightarrow> LongTensor option list \<Rightarrow> nat list \<Rightarrow> real
    \<Rightarrow> error + real" where
  "loss_loop dbg input target [] output = Inr output"
| "loss_loop dbg input target (i # rest) output =
     (case input ! i of
        None \<Rightarrow> loss_loop dbg input target rest output
      | Some x \<Rightarrow>
          (case check_target x target i of
             Inl e \<Rightarrow> Inl e
           | Inr t \<Rightarrow>
               (case CrossEntropyLoss x t of
                  Inr v \<Rightarrow> loss_loop dbg input target rest (output + v)
                | Inl e \<Rightarrow>
                    (case dbg of
                       Continue \<Rightarrow> loss_loop dbg input target rest output
                     | Quit \<Rightarrow> Inl BdbQuit))))"

definition AdaptiveLoss_forward ::
  "AdaptiveLoss \<Rightarrow> pdb_command \<Rightarrow> Tensor option list \<Rightarrow> LongTensor \<Rightarrow> error + real" where
  "AdaptiveLoss_forward self dbg input target =
     (case input of
        [] \<Rightarrow> Inl IndexError
      | None # _ \<Rightarrow> Inl AttributeError
      | Some head_out # _ \<Rightarrow>
          (if head_out = [] then Inl RuntimeError
           else
             let batch_size = length head_out;
                 target' = remap_target self target
             in case loss_loop dbg input target' [0..<length input] 0 of
                  Inl e \<Rightarrow> Inl e
                | Inr output \<Rightarrow> Inr (output / real batch_size)))"

section \<open>Auxiliary notions for the statements\<close>

text \<open>The entry that \<^verbatim>\<open>remap_target\<close> appends for bin \<open>i\<close>.\<close>

definition local_ids :: "int list \<Rightarrow> LongTensor \<Rightarrow> nat \<Rightarrow> LongTensor option" where
  "local_ids cs target i =
     (if 0 < mask_sum (bin_mask cs i target)
      then Some (add_scalar (masked_select target (bin_mask cs i target)) (- (cs ! i)))
      else None)"

text \<open>
  A small model for concrete instances: one input feature, a head band of one token and
  one bin of two tokens, all weights zero.
\<close>

definition example_model :: AdaptiveSoftmax where
  "example_model =
     \<lparr>nhid = 1, cutoff = [1, 3], output_size = 2,
      head = \<lparr>in_features = 1, weight = [[0], [0]], bias = Some [0, 0]\<rparr>,
      tail = [(\<lparr>in_features = 1, weight = [[0]], bias = None\<rparr>,
               \<lparr>in_features = 1, weight = [[0], [0]], bias = None\<rparr>)],
      id' = None\<rparr>"

text \<open>The function a tail classifier computes on one row: its two layers in sequence.\<close>

definition tail_row :: "AdaptiveSoftmax \<Rightarrow> nat \<Rightarrow> real list \<Rightarrow> real list" where
  "tail_row m i x = Linear_row (snd (tail m ! i)) (Linear_row (fst (tail m ! i)) x)"

text \<open>The log-softmax rows of the head and of a tail classifier for one hidden state.\<close>

definition head_lsm :: "AdaptiveSoftmax \<Rightarrow> real list \<Rightarrow> real list" where
  "head_lsm m x = log_softmax_row (Linear_row (head m) x)"

definition tail_lsm :: "AdaptiveSoftmax \<Rightarrow> nat \<Rightarrow> real list \<Rightarrow> real list" where
  "tail_lsm m i x = log_softmax_row (tail_row m i x)"

text \<open>
  The state of the buffer of \<^verbatim>\<open>log_prob\<close> after the bins below \<open>k\<close> have been
  written: the head band and those bins hold their final values.
\<close>

definition assembled :: "AdaptiveSoftmax \<Rightarrow> Tensor \<Rightarrow> nat \<Rightarrow> Tensor \<Rightarrow> bool" where
  "assembled m input k prob \<longleftrightarrow>
     length prob = length input \<and>
     (\<forall>n < length input.
        length (prob ! n) = nat (last (cutoff m)) \<and>
        (\<forall>j < nat (cutoff m ! 0). prob ! n ! j = head_lsm m (input ! n) ! j) \<and>
        (\<forall>i < k. \<forall>j. nat (cutoff m ! i) \<le> j \<and> j < nat (cutoff m ! (i + 1)) \<longrightarrow>
           prob ! n ! j = head_lsm m (input ! n) ! (nat (cutoff m ! 0) + i)
                          + tail_lsm m i (input ! n) ! (j - nat (cutoff m ! i))))"

text \<open>
  The batch positions that \<^verbatim>\<open>set_target\<close> routes to bin \<open>i\<close>, and the slot
  that \<^verbatim>\<open>forward\<close> fills for the bin: the tail classifier on the routed rows, or
  \<^verbatim>\<open>None\<close> when no position is routed.
\<close>

definition routed :: "int list \<Rightarrow> LongTensor \<Rightarrow> nat \<Rightarrow> nat list" where
  "routed cs target i = nonzero (bin_mask cs i target)"

definition tail_slot :: "AdaptiveSoftmax \<Rightarrow> Tensor \<Rightarrow> LongTensor \<Rightarrow> nat \<Rightarrow> Tensor option" where
  "tail_slot m input target i =
     (if routed (cutoff m) target i = [] then None
      else Some (map (\<lambda>n. tail_row m i (input ! n)) (routed (cutoff m) target i)))"

text \<open>
  The two kinds of summands of the training loss: minus the head log-probability of the
  remapped targets \<open>r\<close>, and minus the tail log-probability of the local ids of the
  positions routed to bin \<open>i\<close>.
\<close>

definition head_nll :: "AdaptiveSoftmax \<Rightarrow> Tensor \<Rightarrow> LongTensor \<Rightarrow> real" where
  "head_nll m input r = (\<Sum>n\<leftarrow>[0..<length r]. - (head_lsm m (input ! n) ! nat (r ! n)))"

definition tail_nll :: "AdaptiveSoftmax \<Rightarrow> Tensor \<Rightarrow> LongTensor \<Rightarrow> nat \<Rightarrow> real" where
  "tail_nll m input target i =
     (\<Sum>n\<leftarrow>routed (cutoff m) target i.
        - (tail_lsm m i (input ! n) ! nat (target ! n - cutoff m ! i)))"






text \<open>
  A stand-in for the layer library in concrete instances. It builds a layer exactly for
  positive sizes: the library raises on a negative size, and a size 0 leaves no
  two-dimensional weight in the tensor convention of this theory. The initial weights,
  random in the library, are taken to be zero.
\<close>

definition Linear_positive :: "int \<Rightarrow> int \<Rightarrow> bool \<Rightarrow> error + Linear" where
  "Linear_positive i out b =
     (if i \<le> 0 \<or> out \<le> 0 then Inl RuntimeError
      else Inr \<lparr>in_features = nat i, weight = replicate (nat out) (replicate (nat i) 0),
                bias = (if b then Some (replicate (nat out) 0) else None)\<rparr>)"

section \<open>Routing: the bins, the router and the remapping\<close>


lemma bin_mask_length [simp]: "length (bin_mask cs i target) = length target"
  by (simp add: bin_mask_def mul_def ge_def lt_def)

lemma bin_mask_nth: "n < length target \<Longrightarrow> bin_mask cs i target ! n = in_bin cs i (target ! n)"
  by (simp add: bin_mask_def mul_def ge_def lt_def in_bin_def)

lemma bin_mask_eq: "bin_mask cs i target = map (in_bin cs i) target"
  by (rule nth_equalityI) (simp_all add: bin_mask_nth)

lemma valid_cutoff_mono:
  assumes "valid_cutoff cs" "i < j" "j < length cs"
  shows "cs ! i < cs ! j"
  using assms by (simp add: valid_cutoff_def sorted_wrt_iff_nth_less)

lemma valid_cutoff_mono_le:
  assumes "valid_cutoff cs" "i \<le> j" "j < length cs"
  shows "cs ! i \<le> cs ! j"
  using valid_cutoff_mono [OF assms(1), of i j] assms(2,3) by (cases "i = j") auto

lemma in_bin_exists:
  assumes v: "valid_cutoff cs" and lo: "cs ! 0 \<le> t" and hi: "t < last cs"
  shows "\<exists>i. i < length cs - 1 \<and> in_bin cs i t"
proof -
  define S where "S = {i. i < length cs \<and> cs ! i \<le> t}"
  have ne: "cs \<noteq> []" using v by (simp add: valid_cutoff_def)
  have fin: "finite S" by (simp add: S_def)
  have "0 \<in> S" using ne lo by (simp add: S_def)
  then have nonempty: "S \<noteq> {}" by blast
  define k where "k = Max S"
  have kS: "k \<in> S" unfolding k_def using fin nonempty by (rule Max_in)
  have klen: "k < length cs" and kle: "cs ! k \<le> t" using kS by (simp_all add: S_def)
  have "k \<noteq> length cs - 1"
  proof
    assume "k = length cs - 1"
    then have "cs ! k = last cs" using ne by (simp add: last_conv_nth)
    then show False using kle hi by simp
  qed
  then have k1: "k + 1 < length cs" using klen by simp
  have "k + 1 \<notin> S"
  proof
    assume "k + 1 \<in> S"
    then have "k + 1 \<le> Max S" using fin by simp
    then show False by (simp add: k_def)
  qed
  then have "t < cs ! (k + 1)" using k1 by (simp add: S_def)
  then have "in_bin cs k t" using kle by (simp add: in_bin_def)
  moreover have "k < length cs - 1" using k1 by simp
  ultimately show ?thesis by blast
qed

lemma in_bin_unique:
  assumes v: "valid_cutoff cs" and i: "i < length cs - 1" "in_bin cs i t"
    and j: "j < length cs - 1" "in_bin cs j t"
  shows "i = j"
proof (rule ccontr)
  assume ne: "i \<noteq> j"
  have aux: False if a: "a < b" "b < length cs - 1" "in_bin cs a t" "in_bin cs b t" for a b
  proof -
    have "cs ! (a + 1) \<le> cs ! b"
      using valid_cutoff_mono_le [OF v, of "a + 1" b] a by simp
    then show False using a(3,4) by (simp add: in_bin_def)
  qed
  show False
  proof (cases "i < j")
    case True
    then show ?thesis using aux i j by blast
  next
    case False
    then have "j < i" using ne by simp
    then show ?thesis using aux i j by blast
  qed
qed

lemma in_bin_range:
  assumes v: "valid_cutoff cs" and i: "i < length cs - 1" "in_bin cs i t"
  shows "cs ! 0 \<le> t \<and> t < last cs"
proof -
  have ne: "cs \<noteq> []" using v by (simp add: valid_cutoff_def)
  have "cs ! 0 \<le> cs ! i" using valid_cutoff_mono_le [OF v, of 0 i] i by simp
  moreover have "cs ! (i + 1) \<le> cs ! (length cs - 1)"
    using valid_cutoff_mono_le [OF v, of "i + 1" "length cs - 1"] i by simp
  ultimately show ?thesis using i(2) ne by (simp add: in_bin_def last_conv_nth)
qed

text \<open>
  Claim C7. For valid cutoffs the membership tests of the bins partition \<open>[c0, V)\<close>:
  a target id in \<open>[c0, V)\<close> passes the test of exactly one bin, and an id that passes the
  test of some bin lies in \<open>[c0, V)\<close>.
\<close>

theorem cluster_partition:
  assumes "valid_cutoff cs" and "n < length target"
  shows "(cs ! 0 \<le> target ! n \<and> target ! n < last cs \<longrightarrow>
            (\<exists>!i. i < length cs - 1 \<and> bin_mask cs i target ! n)) \<and>
         (\<forall>i < length cs - 1. bin_mask cs i target ! n \<longrightarrow>
            cs ! 0 \<le> target ! n \<and> target ! n < last cs)"
proof (intro conjI impI allI)
  assume r: "cs ! 0 \<le> target ! n \<and> target ! n < last cs"
  obtain i where i: "i < length cs - 1" "in_bin cs i (target ! n)"
    using in_bin_exists [OF assms(1), of "target ! n"] r by blast
  show "\<exists>!i. i < length cs - 1 \<and> bin_mask cs i target ! n"
  proof (rule ex1I [of _ i])
    show "i < length cs - 1 \<and> bin_mask cs i target ! n"
      using i assms(2) by (simp add: bin_mask_nth)
  next
    fix j assume "j < length cs - 1 \<and> bin_mask cs j target ! n"
    then have "j < length cs - 1" "in_bin cs j (target ! n)"
      using assms(2) by (simp_all add: bin_mask_nth)
    then show "j = i" using in_bin_unique [OF assms(1) _ _ i] by blast
  qed
next
  fix i assume "i < length cs - 1" "bin_mask cs i target ! n"
  then show "cs ! 0 \<le> target ! n" "target ! n < last cs"
    using in_bin_range [OF assms(1), of i "target ! n"] assms(2) by (simp_all add: bin_mask_nth)
qed

theorem cluster_partition_witness:
  "valid_cutoff [4, 7, 10] \<and> (\<exists>!i. i < 2 \<and> bin_mask [4, 7, 10] i [0, 5, 8, 2] ! 2)"
proof -
  have v: "valid_cutoff [4, 7, 10]" by (simp add: valid_cutoff_def)
  have n: "(2::nat) < length [0, 5, 8, 2::int]" by simp
  show ?thesis using v cluster_partition [OF v n] by (simp add: numeral_2_eq_2)
qed


lemma mask_sum_pos_iff: "0 < mask_sum (bin_mask cs i target) \<longleftrightarrow> (\<exists>t \<in> set target. in_bin cs i t)"
  by (auto simp: mask_sum_def bin_mask_eq filter_empty_conv)

lemma zip_conv_upt:
  "length xs = length ys \<Longrightarrow> zip xs ys = map (\<lambda>n. (xs ! n, ys ! n)) [0..<length xs]"
  by (rule nth_equalityI) simp_all

lemma masked_select_nonzero:
  assumes "length msk = length t"
  shows "masked_select t msk = map (\<lambda>n. t ! n) (nonzero msk)"
proof -
  have "zip t msk = map (\<lambda>n. (t ! n, msk ! n)) [0..<length msk]"
    using zip_conv_upt [of t msk] assms by simp
  then show ?thesis
    by (simp add: masked_select_def nonzero_def filter_map comp_def)
qed

lemma nonzero_bound: "n \<in> set (nonzero msk) \<Longrightarrow> n < length msk \<and> msk ! n"
  by (simp add: nonzero_def)

lemma masked_fill_nth:
  "length msk = length t \<Longrightarrow> n < length t \<Longrightarrow>
     masked_fill t msk v ! n = (if msk ! n then v else t ! n)"
  by (simp add: masked_fill_def)

lemma masked_fill_length [simp]: "length msk = length t \<Longrightarrow> length (masked_fill t msk v) = length t"
  by (simp add: masked_fill_def)

lemma remap_fold_snd:
  "snd (foldl (remap_step cs target) (a, acc) [0..<k]) = acc @ map (local_ids cs target) [0..<k]"
  by (induction k) (simp_all add: remap_step_def Let_def local_ids_def)

lemma remap_fold_fst_length:
  "length a = length target \<Longrightarrow> length (fst (foldl (remap_step cs target) (a, acc) [0..<k])) = length target"
  by (induction k) (simp_all add: remap_step_def Let_def)

lemma remap_fold_fst_step:
  "fst (foldl (remap_step cs target) (a, acc) [0..<Suc k]) =
     masked_fill (fst (foldl (remap_step cs target) (a, acc) [0..<k])) (bin_mask cs k target)
       (cs ! 0 + int k)"
  by (simp add: remap_step_def Let_def)

lemma remap_fold_fst_outside:
  assumes "length a = length target" "n < length target"
    and "\<forall>i<k. \<not> in_bin cs i (target ! n)"
  shows "fst (foldl (remap_step cs target) (a, acc) [0..<k]) ! n = a ! n"
  using assms(3)
proof (induction k)
  case 0
  then show ?case by simp
next
  case (Suc k)
  have len: "length (fst (foldl (remap_step cs target) (a, acc) [0..<k])) = length target"
    using assms(1) by (rule remap_fold_fst_length)
  have "\<not> bin_mask cs k target ! n" using Suc.prems assms(2) by (simp add: bin_mask_nth)
  then show ?case
    using Suc len assms(2) by (simp only: remap_fold_fst_step) (simp add: masked_fill_nth)
qed

lemma remap_fold_fst_inside:
  assumes v: "valid_cutoff cs" and "length a = length target" "n < length target"
    and "k \<le> length cs - 1" "i < k" "in_bin cs i (target ! n)"
  shows "fst (foldl (remap_step cs target) (a, acc) [0..<k]) ! n = cs ! 0 + int i"
  using assms(4,5)
proof (induction k)
  case 0
  then show ?case by simp
next
  case (Suc k)
  have len: "length (fst (foldl (remap_step cs target) (a, acc) [0..<k])) = length target"
    using assms(2) by (rule remap_fold_fst_length)
  show ?case
  proof (cases "in_bin cs k (target ! n)")
    case True
    have "i = k" using in_bin_unique [OF v _ assms(6) _ True] Suc.prems by simp
    then show ?thesis
      using True len assms(3) by (simp only: remap_fold_fst_step) (simp add: masked_fill_nth bin_mask_nth)
  next
    case False
    then have "i \<noteq> k" using assms(6) by blast
    then have "i < k" using Suc.prems by simp
    then have "fst (foldl (remap_step cs target) (a, acc) [0..<k]) ! n = cs ! 0 + int i"
      using Suc by simp
    then show ?thesis
      using False len assms(3) by (simp only: remap_fold_fst_step) (simp add: masked_fill_nth bin_mask_nth)
  qed
qed

lemma remap_target_eq:
  "remap_target self target =
     Some (fst (foldl (remap_step (loss_cutoff self) target) (target, []) [0..<length (loss_cutoff self) - 1]))
       # map (local_ids (loss_cutoff self) target) [0..<length (loss_cutoff self) - 1]"
  by (simp add: remap_target_def Let_def remap_fold_snd)

lemma set_target_id:
  "id' (set_target self target) =
     Some (map (\<lambda>i. if 0 < mask_sum (bin_mask (cutoff self) i target)
                     then Some (nonzero (bin_mask (cutoff self) i target)) else None)
            [0..<length (cutoff self) - 1])"
  by (simp add: set_target_def Let_def)

lemma bin_mask_last_cutoff:
  assumes "\<forall>t \<in> set target. t < V" "i < length cs"
  shows "bin_mask (cs @ [V]) i target = bin_mask (cs @ [V + 1]) i target"
proof (cases "i + 1 < length cs")
  case True
  then show ?thesis using assms(2) by (simp add: bin_mask_eq in_bin_def nth_append)
next
  case False
  then have "i + 1 = length cs" using assms(2) by simp
  then show ?thesis using assms by (auto simp: bin_mask_eq in_bin_def nth_append)
qed

text \<open>
  Claim C10. The model is built with the cutoffs \<open>cs @ [V]\<close>, the loss with
  \<open>cs @ [V + 1]\<close>. For targets in \<open>[0, V)\<close> both compute the same mask for every bin;
  an empty bin is \<^verbatim>\<open>None\<close> on both sides, and otherwise the local ids of the loss
  are the targets at the positions the model selects, in the same order, minus the lower
  cutoff of the bin.
\<close>

theorem router_agrees_with_remap:
  assumes "\<forall>t \<in> set target. 0 \<le> t \<and> t < V"
    and "cutoff m = cs @ [V]" and "loss_cutoff c = cs @ [V + 1]" and "i < length cs"
  shows "bin_mask (cutoff m) i target = bin_mask (loss_cutoff c) i target \<and>
         (\<exists>ids. id' (set_target m target) = Some ids \<and> length ids = length cs \<and>
                length (remap_target c target) = length cs + 1 \<and>
                (case ids ! i of
                   None \<Rightarrow> remap_target c target ! (i + 1) = None
                 | Some sel \<Rightarrow>
                     remap_target c target ! (i + 1)
                       = Some (map (\<lambda>n. target ! n - cs ! i) sel)))"
proof -
  have lt: "\<forall>t \<in> set target. t < V" using assms(1) by blast
  have eq: "bin_mask (cs @ [V]) i target = bin_mask (cs @ [V + 1]) i target"
    using lt assms(4) by (rule bin_mask_last_cutoff)
  have sel: "masked_select target (bin_mask (cs @ [V + 1]) i target)
               = map (\<lambda>n. target ! n) (nonzero (bin_mask (cs @ [V + 1]) i target))"
    by (rule masked_select_nonzero) simp
  have "remap_target c target ! (i + 1) = local_ids (cs @ [V + 1]) target i"
    using assms(3,4) by (simp add: remap_target_eq)
  then show ?thesis
    using eq sel assms(2,3,4)
    by (simp add: set_target_id remap_target_eq local_ids_def add_scalar_def nth_append comp_def)
qed

theorem router_agrees_with_remap_witness:
  "bin_mask (cutoff example_model) 0 [0, 2, 1] = bin_mask (loss_cutoff (AdaptiveLoss_init [1, 4])) 0 [0, 2, 1] \<and>
   (\<exists>ids. id' (set_target example_model [0, 2, 1]) = Some ids \<and> length ids = length [1::int] \<and>
          length (remap_target (AdaptiveLoss_init [1, 4]) [0, 2, 1]) = length [1::int] + 1 \<and>
          (case ids ! 0 of
             None \<Rightarrow> remap_target (AdaptiveLoss_init [1, 4]) [0, 2, 1] ! (0 + 1) = None
           | Some sel \<Rightarrow>
               remap_target (AdaptiveLoss_init [1, 4]) [0, 2, 1] ! (0 + 1)
                 = Some (map (\<lambda>n. [0, 2, 1] ! n - [1] ! 0) sel)))"
proof -
  have a: "\<forall>t \<in> set [0, 2, 1::int]. 0 \<le> t \<and> t < 3" by simp
  have b: "cutoff example_model = [1] @ [3]" by (simp add: example_model_def)
  have c: "loss_cutoff (AdaptiveLoss_init [1, 4]) = [1] @ [3 + 1]" by (simp add: AdaptiveLoss_init_def)
  have d: "(0::nat) < length [1::int]" by simp
  show ?thesis by (rule router_agrees_with_remap [OF a b c d])
qed

text \<open>
  Claim C6 (as stated). With the cutoffs \<open>[4, 7, 10]\<close> the remapped targets of
  \<open>[0, 5, 8, 2]\<close> are not \<open>[0, 4, 4, 2]\<close>, and target 8 does not get the local id 4.
\<close>

theorem scenario_counterexample:
  "remap_target (AdaptiveLoss_init [4, 7, 10]) [0, 5, 8, 2] ! 0 \<noteq> Some [0, 4, 4, 2] \<and>
   Some [1, 4] \<notin> set (remap_target (AdaptiveLoss_init [4, 7, 10]) [0, 5, 8, 2])"
  by (simp add: remap_target_def AdaptiveLoss_init_def remap_step_def bin_mask_def mul_def ge_def
      lt_def mask_sum_def masked_fill_def masked_select_def add_scalar_def numeral_3_eq_3)

text \<open>
  Claim C6 (amended). The cutoffs \<open>[4, 7, 10]\<close> make two bins, \<open>[4, 7)\<close> and
  \<open>[7, 10)\<close>. Target 5 (position 1) goes to bin 0 with local id 1, target 8 (position 2)
  to bin 1 with local id 1; positions 0 and 3 stay in the head band, and the remapped
  targets are \<open>[0, 4, 5, 2]\<close>.
\<close>

theorem scenario_two_bins:
  "remap_target (AdaptiveLoss_init [4, 7, 10]) [0, 5, 8, 2] = [Some [0, 4, 5, 2], Some [1], Some [1]] \<and>
   id' (set_target (m\<lparr>cutoff := [4, 7, 10]\<rparr>) [0, 5, 8, 2]) = Some [Some [1], Some [2]]"
  by (simp add: remap_target_def AdaptiveLoss_init_def remap_step_def bin_mask_def mul_def ge_def
      lt_def mask_sum_def masked_fill_def masked_select_def add_scalar_def numeral_3_eq_3
      set_target_def nonzero_def upt_rec [of _ "numeral _"])

text \<open>The values of the scenario as written belong to the single bin \<open>[4, 10)\<close>.\<close>

lemma scenario_one_bin:
  "remap_target (AdaptiveLoss_init [4, 10]) [0, 5, 8, 2] = [Some [0, 4, 4, 2], Some [1, 4]] \<and>
   id' (set_target (m\<lparr>cutoff := [4, 10]\<rparr>) [0, 5, 8, 2]) = Some [Some [1, 2]]"
  by (simp add: remap_target_def AdaptiveLoss_init_def remap_step_def bin_mask_def mul_def ge_def
      lt_def mask_sum_def masked_fill_def masked_select_def add_scalar_def numeral_2_eq_2
      set_target_def nonzero_def upt_rec [of _ "numeral _"])

section \<open>The loss on head-band batches\<close>


lemma loss_loop_append:
  "loss_loop dbg input target (xs @ ys) out =
     (case loss_loop dbg input target xs out of
        Inl e \<Rightarrow> Inl e
      | Inr out' \<Rightarrow> loss_loop dbg input target ys out')"
proof (cases dbg)
  case Continue
  show ?thesis unfolding Continue
    by (induction xs arbitrary: out) (auto split: option.splits sum.splits)
next
  case Quit
  show ?thesis unfolding Quit
    by (induction xs arbitrary: out) (auto split: option.splits sum.splits)
qed

lemma loss_loop_all_None:
  "\<forall>j \<in> set idx. input ! j = None \<Longrightarrow> loss_loop dbg input target idx out = Inr out"
  by (induction idx) simp_all

lemma in_bin_lower:
  assumes "valid_cutoff cs" "i < length cs - 1" "in_bin cs i t"
  shows "cs ! 0 \<le> t"
  using in_bin_range [OF assms] by simp

lemma local_ids_None_iff: "local_ids cs target i = None \<longleftrightarrow> (\<forall>t \<in> set target. \<not> in_bin cs i t)"
  using mask_sum_pos_iff [of cs i target] by (auto simp: local_ids_def)

lemma remap_target_head_band:
  assumes v: "valid_cutoff (loss_cutoff c)" and band: "\<forall>t \<in> set target. t < loss_cutoff c ! 0"
  shows "remap_target c target = Some target # replicate (length (loss_cutoff c) - 1) None"
proof -
  let ?cs = "loss_cutoff c"
  have out: "\<not> in_bin ?cs i t" if "t \<in> set target" "i < length ?cs - 1" for i t
    using in_bin_lower [OF v that(2), of t] band that(1) by fastforce
  have "fst (foldl (remap_step ?cs target) (target, []) [0..<length ?cs - 1]) = target"
  proof (rule nth_equalityI)
    show "length (fst (foldl (remap_step ?cs target) (target, []) [0..<length ?cs - 1])) = length target"
      by (simp add: remap_fold_fst_length)
  next
    fix n assume "n < length (fst (foldl (remap_step ?cs target) (target, []) [0..<length ?cs - 1]))"
    then have n: "n < length target" by (simp add: remap_fold_fst_length)
    then have "\<forall>i<length ?cs - 1. \<not> in_bin ?cs i (target ! n)" using out by simp
    then show "fst (foldl (remap_step ?cs target) (target, []) [0..<length ?cs - 1]) ! n = target ! n"
      using n by (simp add: remap_fold_fst_outside)
  qed
  moreover have "map (local_ids ?cs target) [0..<length ?cs - 1] = replicate (length ?cs - 1) None"
    by (rule nth_equalityI) (simp_all add: local_ids_None_iff out)
  ultimately show ?thesis by (simp add: remap_target_eq)
qed

lemma CrossEntropyLoss_ok:
  assumes "input \<noteq> []" "length input = length target"
    and "\<forall>n < length target. 0 \<le> target ! n \<and> target ! n < int (length (input ! n))"
  shows "CrossEntropyLoss input target
           = Inr (sum_list (map (\<lambda>(x, t). - (log_softmax_row x ! nat t)) (zip input target)))"
proof -
  have "\<not> (\<exists>(x, t) \<in> set (zip input target). t < 0 \<or> int (length x) \<le> t)"
    using assms(2,3) by (fastforce simp: set_zip)
  then show ?thesis using assms(1,2) by (simp add: CrossEntropyLoss_def)
qed

text \<open>
  Claim C4 (amended). When every target lies in the head band and no tail slot is filled,
  the loss is the plain mean cross-entropy of the whole head output (all its columns,
  the bin columns included) against the raw targets.
\<close>

theorem head_band_loss:
  assumes "valid_cutoff (loss_cutoff c)"
    and "\<forall>t \<in> set target. 0 \<le> t \<and> t < loss_cutoff c ! 0"
    and "head_out \<noteq> []" and "length head_out = length target"
    and "\<forall>x \<in> set head_out. loss_cutoff c ! 0 \<le> int (length x)"
    and "list_all (\<lambda>slot. slot = None) rest"
  shows "\<exists>v. CrossEntropyLoss head_out target = Inr v \<and>
             AdaptiveLoss_forward c dbg (Some head_out # rest) target
               = Inr (v / real (length target))"
proof -
  let ?v = "sum_list (map (\<lambda>(x, t). - (log_softmax_row x ! nat t)) (zip head_out target))"
  have band: "\<forall>t \<in> set target. t < loss_cutoff c ! 0" using assms(2) by blast
  have ne: "target \<noteq> []" using assms(3,4) by auto
  have ce: "CrossEntropyLoss head_out target = Inr ?v"
  proof (rule CrossEntropyLoss_ok [OF assms(3,4)], intro allI impI)
    fix n assume n: "n < length target"
    then have "target ! n \<in> set target" "head_out ! n \<in> set head_out" using assms(4) by simp_all
    then show "0 \<le> target ! n \<and> target ! n < int (length (head_out ! n))"
      using assms(2,5) by fastforce
  qed
  obtain r rs where h: "head_out = r # rs" using assms(3) by (cases head_out) auto
  have "loss_cutoff c ! 0 \<le> int (length r)" using assms(5) h by simp
  moreover have "Max (set target) < loss_cutoff c ! 0" using band ne by simp
  ultimately have mx: "Max (set target) \<le> int (length r)" by linarith
  have mn: "0 \<le> Min (set target)" using assms(2) ne by simp
  have chk: "check_target head_out (remap_target c target) 0 = Inr target"
    using ne mx mn h by (simp add: check_target_def size1_def remap_target_head_band [OF assms(1) band])
  have rest: "\<forall>j \<in> set [1..<Suc (length rest)]. (Some head_out # rest) ! j = None"
    using assms(6) by (auto simp: list_all_length nth_Cons split: nat.splits)
  have "[0..<length (Some head_out # rest)] = [0] @ [1..<Suc (length rest)]"
    by (simp add: upt_rec)
  then have "loss_loop dbg (Some head_out # rest) (remap_target c target)
               [0..<length (Some head_out # rest)] 0 = Inr ?v"
    using chk ce loss_loop_all_None [OF rest]
    by (simp only: loss_loop_append) simp
  then have "AdaptiveLoss_forward c dbg (Some head_out # rest) target
               = Inr (?v / real (length target))"
    using assms(3,4) by (simp add: AdaptiveLoss_forward_def Let_def)
  then show ?thesis using ce by blast
qed

text \<open>
  Claim C4 (as stated). With head band \<open>[0, 1)\<close>, one bin and head logits
  \<open>[0, 0]\<close>, the loss of target 0 is \<open>ln 2\<close>, while the plain cross-entropy
  on the first \<open>c0 = 1\<close> column of the head logits is 0.
\<close>

theorem head_band_loss_counterexample:
  "AdaptiveLoss_forward (AdaptiveLoss_init [1, 3]) Continue [Some [[0, 0]], None] [0] = Inr (ln 2) \<and>
   narrow [[0, 0]] 0 1 = Inr [[0]] \<and>
   CrossEntropyLoss [[0]] [0] = Inr 0 \<and> ln (2::real) \<noteq> 0"
  by (simp add: AdaptiveLoss_forward_def AdaptiveLoss_init_def remap_target_def remap_step_def
      bin_mask_def mul_def ge_def lt_def mask_sum_def masked_fill_def check_target_def size1_def
      CrossEntropyLoss_def log_softmax_row_def narrow_def upt_rec [of _ "numeral _"])

theorem head_band_loss_witness:
  "\<exists>v. CrossEntropyLoss [[0, 0]] [0] = Inr v \<and>
       AdaptiveLoss_forward (AdaptiveLoss_init [1, 3]) Continue (Some [[0, 0]] # [None]) [0]
         = Inr (v / real (length [0::int]))"
  by (rule head_band_loss) (simp_all add: AdaptiveLoss_init_def valid_cutoff_def)

section \<open>The dense log-probabilities\<close>


lemma Linear_forward_ok:
  assumes "input \<noteq> []" "\<forall>x \<in> set input. length x = in_features l"
  shows "Linear_forward l input = Inr (map (Linear_row l) input)"
  using assms by (simp add: Linear_forward_def)

lemma Linear_row_length:
  assumes "Linear_shape l i out b"
  shows "length (Linear_row l x) = nat out"
  using assms by (auto simp: Linear_shape_def Linear_row_def split: option.splits)

lemma Linear_shape_in: "Linear_shape l i out b \<Longrightarrow> in_features l = nat i"
  by (auto simp: Linear_shape_def)

lemma shaped_tail:
  assumes "shaped m" "i < length (tail m)"
  shows "Linear_shape (fst (tail m ! i)) (nhid m) (nhid m div 4 ^ i) False"
    and "Linear_shape (snd (tail m ! i)) (nhid m div 4 ^ i) (cutoff m ! (i + 1) - cutoff m ! i) False"
  using assms by (simp_all add: shaped_def list_all_iff)

lemma shaped_head: "shaped m \<Longrightarrow> Linear_shape (head m) (nhid m) (output_size m) True"
  unfolding shaped_def by blast

lemma shaped_tail_length: "shaped m \<Longrightarrow> length (tail m) = length (cutoff m) - 1"
  by (simp add: shaped_def)

lemma shaped_output_size:
  "shaped m \<Longrightarrow> output_size m = cutoff m ! 0 + int (length (cutoff m)) - 1"
  by (simp add: shaped_def)

lemma head_forward:
  assumes "shaped m" "input \<noteq> []" "\<forall>x \<in> set input. int (length x) = nhid m"
  shows "Linear_forward (head m) input = Inr (map (Linear_row (head m)) input)"
proof (rule Linear_forward_ok [OF assms(2)])
  show "\<forall>x \<in> set input. length x = in_features (head m)"
    using assms(3) Linear_shape_in [OF shaped_head [OF assms(1)]] by auto
qed

lemma head_row_length: "shaped m \<Longrightarrow> length (Linear_row (head m) x) = nat (output_size m)"
  using Linear_row_length [OF shaped_head] by simp

lemma tail_forward:
  assumes "shaped m" "i < length (tail m)" "rows \<noteq> []" "\<forall>x \<in> set rows. int (length x) = nhid m"
  shows "Sequential_forward (tail m ! i) rows = Inr (map (tail_row m i) rows)"
proof -
  note s = shaped_tail [OF assms(1,2)]
  have a: "Linear_forward (fst (tail m ! i)) rows = Inr (map (Linear_row (fst (tail m ! i))) rows)"
    using assms(4) Linear_shape_in [OF s(1)] by (intro Linear_forward_ok [OF assms(3)]) auto
  have b: "Linear_forward (snd (tail m ! i)) (map (Linear_row (fst (tail m ! i))) rows)
             = Inr (map (Linear_row (snd (tail m ! i))) (map (Linear_row (fst (tail m ! i))) rows))"
    using assms(3) Linear_row_length [OF s(1)] Linear_shape_in [OF s(2)]
    by (intro Linear_forward_ok) auto
  show ?thesis by (simp add: Sequential_forward_def a b tail_row_def comp_def)
qed

lemma tail_row_length:
  assumes "shaped m" "i < length (tail m)"
  shows "length (tail_row m i x) = nat (cutoff m ! (i + 1) - cutoff m ! i)"
  using Linear_row_length [OF shaped_tail(2) [OF assms]] by (simp add: tail_row_def)

lemma log_softmax_row_length [simp]: "length (log_softmax_row x) = length x"
  by (simp add: log_softmax_row_def)

lemma LogSoftmax_length [simp]: "length (LogSoftmax t) = length t"
  by (simp add: LogSoftmax_def)

lemma LogSoftmax_nth: "n < length t \<Longrightarrow> LogSoftmax t ! n = log_softmax_row (t ! n)"
  by (simp add: LogSoftmax_def)

lemma valid_cutoff_offset:
  assumes "valid_cutoff cs" "i < length cs"
  shows "cs ! 0 + int i \<le> cs ! i"
  using assms(2)
proof (induction i)
  case 0
  then show ?case by simp
next
  case (Suc i)
  have "cs ! i < cs ! Suc i" using valid_cutoff_mono [OF assms(1), of i "Suc i"] Suc.prems by simp
  then show ?case using Suc by simp
qed

lemma valid_cutoff_pos:
  assumes "valid_cutoff cs" "i < length cs"
  shows "0 < cs ! i"
proof -
  have "0 < cs ! 0" using assms(1) by (simp add: valid_cutoff_def)
  then show ?thesis using valid_cutoff_offset [OF assms] by linarith
qed

lemma valid_cutoff_le_last:
  assumes "valid_cutoff cs" "i < length cs"
  shows "cs ! i \<le> last cs"
proof -
  have "cs \<noteq> []" using assms(1) by (simp add: valid_cutoff_def)
  then have "last cs = cs ! (length cs - 1)" by (simp add: last_conv_nth)
  then show ?thesis using valid_cutoff_mono_le [OF assms(1), of i "length cs - 1"] assms(2) by simp
qed

lemma narrow_ok:
  assumes "t \<noteq> []" "0 \<le> start" "0 < len" "\<forall>r \<in> set t. start + len \<le> int (length r)"
  shows "narrow t start len = Inr (map (\<lambda>r. take (nat len) (drop (nat start) r)) t)"
proof -
  have "\<not> (\<exists>r \<in> set t. int (length r) < start + len)" using assms(4) by fastforce
  then show ?thesis using assms(1,2,3) by (simp add: narrow_def)
qed

lemma splice_nth:
  assumes "a + length w \<le> length r"
  shows "(take a r @ w @ drop (a + length w) r) ! j
           = (if j < a then r ! j else if j < a + length w then w ! (j - a) else r ! j)"
proof -
  have la: "length (take a r) = a" using assms by simp
  show ?thesis
  proof (cases "j < a")
    case True
    then show ?thesis using la by (simp add: nth_append)
  next
    case False
    show ?thesis
    proof (cases "j < a + length w")
      case True
      then have "j - a < length w" using False by arith
      then show ?thesis using True False la by (simp add: nth_append)
    next
      case f2: False
      have n2: "\<not> j - a < length w" using False f2 by arith
      have "(take a r @ w @ drop (a + length w) r) ! j = (w @ drop (a + length w) r) ! (j - a)"
        using False la by (simp add: nth_append)
      also have "\<dots> = drop (a + length w) r ! (j - a - length w)"
        using n2 by (simp add: nth_append)
      also have "\<dots> = r ! (a + length w + (j - a - length w))"
        using assms by simp
      also have "a + length w + (j - a - length w) = j" using f2 by arith
      finally show ?thesis using False f2 by simp
    qed
  qed
qed

lemma splice_length:
  "a + length w \<le> length r \<Longrightarrow> length (take a r @ w @ drop (a + length w) r) = length r"
  by simp

lemma set_narrow_length [simp]: "length (set_narrow t start v) = min (length t) (length v)"
  by (simp add: set_narrow_def)

lemma set_narrow_nth:
  "n < length t \<Longrightarrow> n < length v \<Longrightarrow>
     set_narrow t start v ! n
       = take (nat start) (t ! n) @ v ! n @ drop (nat start + length (v ! n)) (t ! n)"
  by (simp add: set_narrow_def)

lemma add_length [simp]: "length (add a b) = min (length a) (length b)"
  by (simp add: add_def)

lemma add_nth:
  "n < length a \<Longrightarrow> n < length b \<Longrightarrow> add a b ! n = map (\<lambda>(x, y). x + y) (zip (a ! n) (b ! n))"
  by (simp add: add_def)

lemma expand_nth: "n < length t \<Longrightarrow> expand t k ! n = concat (replicate (nat k) (t ! n))"
  by (simp add: expand_def)

lemma concat_replicate_single: "concat (replicate k [v]) = replicate k v"
  by (induction k) simp_all


lemma take1_drop: "a < length r \<Longrightarrow> take (Suc 0) (drop a r) = [r ! a]"
  by (simp add: Cons_nth_drop_Suc [symmetric])

lemma map_eq_replicate: "\<forall>x \<in> set xs. f x = c \<Longrightarrow> map f xs = replicate (length xs) c"
  by (induction xs) simp_all

lemma zip_replicate_add:
  "length ys = k \<Longrightarrow> map (\<lambda>(x, y). x + y) (zip (replicate k (v::real)) ys) = map (\<lambda>y. v + y) ys"
  by (simp add: zip_replicate1 comp_def)

lemma log_prob_step_ok:
  assumes sh: "shaped m" and v: "valid_cutoff (cutoff m)"
    and ne: "input \<noteq> []" and rows: "\<forall>x \<in> set input. int (length x) = nhid m"
    and k: "k < length (cutoff m) - 1"
    and lh: "lh = LogSoftmax (map (Linear_row (head m)) input)"
    and len: "length prob = length input"
    and wid: "\<forall>r \<in> set prob. length r = nat (last (cutoff m))"
  shows "log_prob_step m input lh prob k =
           Inr (map (\<lambda>n. take (nat (cutoff m ! k)) (prob ! n)
                         @ map (\<lambda>x. lh ! n ! nat (cutoff m ! 0 + int k) + x)
                               (log_softmax_row (tail_row m k (input ! n)))
                         @ drop (nat (cutoff m ! (k + 1))) (prob ! n))
                  [0..<length input])"
proof -
  let ?cs = "cutoff m"
  let ?pos = "?cs ! k"
  let ?sz = "?cs ! (k + 1) - ?cs ! k"
  let ?col = "?cs ! 0 + int k"
  have kt: "k < length (tail m)" using k shaped_tail_length [OF sh] by simp
  have k1: "k + 1 < length ?cs" using k by simp
  have pos0: "0 < ?pos" using valid_cutoff_pos [OF v, of k] k by simp
  have sz0: "0 < ?sz" using valid_cutoff_mono [OF v, of k "k + 1"] k1 by simp
  have top: "?cs ! (k + 1) \<le> last ?cs" using valid_cutoff_le_last [OF v k1] .
  have c00: "0 < ?cs ! 0" using v by (simp add: valid_cutoff_def)
  have col0: "0 \<le> ?col" using c00 by simp
  have W: "?col + 1 \<le> output_size m" using shaped_output_size [OF sh] k by simp
  have lhlen: "length lh = length input" by (simp add: lh)
  have lhrow: "length r = nat (output_size m)" if "r \<in> set lh" for r
    using that by (auto simp: lh LogSoftmax_def head_row_length [OF sh])
  have lhne: "lh \<noteq> []" using ne lhlen by auto
  have colw: "nat ?col < length r" if "r \<in> set lh" for r
    using lhrow [OF that] W col0 by linarith
  have n1: "narrow lh ?col 1 = Inr (map (\<lambda>r. take (nat 1) (drop (nat ?col) r)) lh)"
  proof (rule narrow_ok [OF lhne col0])
    show "\<forall>r \<in> set lh. ?col + 1 \<le> int (length r)" using lhrow W by auto
  qed simp
  have colmap: "map (\<lambda>r. take (nat 1) (drop (nat ?col) r)) lh = map (\<lambda>r. [r ! nat ?col]) lh"
    using colw by (simp add: take1_drop)
  have n1c: "narrow lh ?col 1 = Inr (map (\<lambda>r. [r ! nat ?col]) lh)"
    using n1 colmap by simp
  have seq: "Sequential_forward (tail m ! k) input = Inr (map (tail_row m k) input)"
    using tail_forward [OF sh kt ne rows] .
  have pne: "prob \<noteq> []" using ne len by auto
  have n2: "narrow prob ?pos ?sz = Inr (map (\<lambda>r. take (nat ?sz) (drop (nat ?pos) r)) prob)"
  proof (rule narrow_ok [OF pne _ sz0])
    show "0 \<le> ?pos" using pos0 by simp
    show "\<forall>r \<in> set prob. ?pos + ?sz \<le> int (length r)" using wid top pos0 sz0 by auto
  qed
  let ?buffer = "expand (map (\<lambda>r. [r ! nat ?col]) lh) ?sz"
  let ?lt = "LogSoftmax (map (tail_row m k) input)"
  have bufrow: "?buffer = map (\<lambda>r. replicate (nat ?sz) (r ! nat ?col)) lh"
    by (simp add: expand_def concat_replicate_single comp_def)
  have sh1: "same_shape (map (\<lambda>r. take (nat ?sz) (drop (nat ?pos) r)) prob) ?buffer"
  proof -
    have "length (take (nat ?sz) (drop (nat ?pos) r)) = nat ?sz" if "r \<in> set prob" for r
      using wid that top pos0 sz0 by auto
    then have "map (\<lambda>r. length (take (nat ?sz) (drop (nat ?pos) r))) prob
                 = replicate (length prob) (nat ?sz)"
      by (intro map_eq_replicate) blast
    then have "map length (map (\<lambda>r. take (nat ?sz) (drop (nat ?pos) r)) prob)
                 = replicate (length input) (nat ?sz)"
      using len by (simp add: comp_def)
    moreover have "map length ?buffer = replicate (length input) (nat ?sz)"
      unfolding bufrow by (simp add: comp_def map_replicate_const lhlen)
    ultimately show ?thesis by (simp add: same_shape_def)
  qed
  have sh2: "same_shape ?buffer ?lt"
    unfolding bufrow
    by (simp add: same_shape_def LogSoftmax_def comp_def tail_row_length [OF sh kt]
        map_replicate_const lhlen)
  define B where "B = add ?buffer ?lt"
  have step: "log_prob_step m input lh prob k = Inr (set_narrow prob ?pos B)"
    unfolding B_def using k1 sz0 sh1 [simplified] sh2 [simplified]
    by (simp add: log_prob_step_def Let_def n1c seq n2 [simplified])
  have Blen: "length B = length input"
    unfolding B_def bufrow by (simp add: lhlen)
  have Bn: "B ! n = map (\<lambda>x. lh ! n ! nat ?col + x) (log_softmax_row (tail_row m k (input ! n)))"
    if "n < length input" for n
    unfolding B_def bufrow using that
    by (simp add: add_nth lhlen LogSoftmax_nth zip_replicate_add tail_row_length [OF sh kt])
  have Bnlen: "length (B ! n) = nat ?sz" if "n < length input" for n
    using Bn [OF that] by (simp add: tail_row_length [OF sh kt])
  have tot: "nat ?pos + nat ?sz = nat (?cs ! (k + 1))" using pos0 sz0 by simp
  have "set_narrow prob ?pos B =
          map (\<lambda>n. take (nat ?pos) (prob ! n)
                    @ map (\<lambda>x. lh ! n ! nat ?col + x) (log_softmax_row (tail_row m k (input ! n)))
                    @ drop (nat (?cs ! (k + 1))) (prob ! n))
            [0..<length input]"
  proof (rule nth_equalityI)
    show "length (set_narrow prob ?pos B) = length (map (\<lambda>n. take (nat ?pos) (prob ! n)
                    @ map (\<lambda>x. lh ! n ! nat ?col + x) (log_softmax_row (tail_row m k (input ! n)))
                    @ drop (nat (?cs ! (k + 1))) (prob ! n)) [0..<length input])"
      by (simp add: len Blen)
  next
    fix n assume "n < length (set_narrow prob ?pos B)"
    then have n: "n < length input" by (simp add: len Blen)
    have "set_narrow prob ?pos B ! n
            = take (nat ?pos) (prob ! n) @ B ! n @ drop (nat ?pos + length (B ! n)) (prob ! n)"
      using n by (simp add: set_narrow_nth len Blen)
    also have "\<dots> = take (nat ?pos) (prob ! n)
                    @ map (\<lambda>x. lh ! n ! nat ?col + x) (log_softmax_row (tail_row m k (input ! n)))
                    @ drop (nat (?cs ! (k + 1))) (prob ! n)"
      unfolding Bnlen [OF n] tot by (simp only: Bn [OF n])
    finally show "set_narrow prob ?pos B ! n =
            map (\<lambda>n. take (nat ?pos) (prob ! n)
                    @ map (\<lambda>x. lh ! n ! nat ?col + x) (log_softmax_row (tail_row m k (input ! n)))
                    @ drop (nat (?cs ! (k + 1))) (prob ! n)) [0..<length input] ! n"
      using n by simp
  qed
  then show ?thesis using step by simp
qed


lemma assembled_step:
  assumes sh: "shaped m" and v: "valid_cutoff (cutoff m)"
    and ne: "input \<noteq> []" and rows: "\<forall>x \<in> set input. int (length x) = nhid m"
    and k: "k < length (cutoff m) - 1"
    and lh: "lh = LogSoftmax (map (Linear_row (head m)) input)"
    and inv: "assembled m input k prob"
  shows "\<exists>prob'. log_prob_step m input lh prob k = Inr prob' \<and> assembled m input (Suc k) prob'"
proof -
  let ?cs = "cutoff m"
  let ?a = "nat (?cs ! k)"
  let ?b = "nat (?cs ! (k + 1))"
  let ?V = "nat (last ?cs)"
  define w where "w n = map (\<lambda>x. lh ! n ! nat (?cs ! 0 + int k) + x)
                               (log_softmax_row (tail_row m k (input ! n)))" for n
  define prob' where "prob' = map (\<lambda>n. take ?a (prob ! n) @ w n @ drop ?b (prob ! n)) [0..<length input]"
  have kt: "k < length (tail m)" using k shaped_tail_length [OF sh] by simp
  have k1: "k + 1 < length ?cs" using k by simp
  have len: "length prob = length input" using inv by (simp add: assembled_def)
  have wid: "\<forall>r \<in> set prob. length r = ?V"
    using inv by (auto simp: assembled_def in_set_conv_nth)
  have step: "log_prob_step m input lh prob k = Inr prob'"
    unfolding prob'_def w_def by (rule log_prob_step_ok [OF sh v ne rows k lh len wid])
  have pos0: "0 < ?cs ! k" using valid_cutoff_pos [OF v, of k] k by simp
  have lt: "?cs ! k < ?cs ! (k + 1)" using valid_cutoff_mono [OF v, of k "k + 1"] k1 by simp
  have top: "?cs ! (k + 1) \<le> last ?cs" using valid_cutoff_le_last [OF v k1] .
  have c0k: "?cs ! 0 \<le> ?cs ! k" using valid_cutoff_mono_le [OF v, of 0 k] k by simp
  have wlen: "length (w n) = ?b - ?a" for n
    using pos0 lt by (simp add: w_def tail_row_length [OF sh kt] nat_diff_distrib)
  have ab: "?a + length (w n) = ?b" for n using wlen pos0 lt by simp
  have bV: "?b \<le> ?V" using top by simp
  have colk: "nat (?cs ! 0 + int k) = nat (?cs ! 0) + k"
    using v by (simp add: valid_cutoff_def nat_add_distrib)
  have "assembled m input (Suc k) prob'"
    unfolding assembled_def
  proof (intro conjI allI impI)
    show "length prob' = length input" by (simp add: prob'_def)
  next
    fix n assume n: "n < length input"
    have rl: "length (prob ! n) = ?V" using inv n by (simp add: assembled_def)
    have pn: "prob' ! n = take ?a (prob ! n) @ w n @ drop (?a + length (w n)) (prob ! n)"
      using n by (simp add: prob'_def ab)
    have fits: "?a + length (w n) \<le> length (prob ! n)" using ab [of n] bV rl by simp
    show "length (prob' ! n) = ?V" using fits rl by (simp add: pn)
    have nth: "prob' ! n ! j = (if j < ?a then prob ! n ! j
                                 else if j < ?b then w n ! (j - ?a) else prob ! n ! j)" for j
      unfolding pn using splice_nth [OF fits, of j] ab [of n] by simp
    {
      fix j assume j: "j < nat (?cs ! 0)"
      then have "j < ?a" using c0k by simp
      then show "prob' ! n ! j = head_lsm m (input ! n) ! j"
        using inv n j by (simp add: nth assembled_def)
    }
    {
      fix i j assume i: "i < Suc k" and j: "nat (?cs ! i) \<le> j \<and> j < nat (?cs ! (i + 1))"
      show "prob' ! n ! j = head_lsm m (input ! n) ! (nat (?cs ! 0) + i)
                              + tail_lsm m i (input ! n) ! (j - nat (?cs ! i))"
      proof (cases "i = k")
        case True
        have "j - ?a < ?b - ?a" using j True by auto
        then have "j - ?a < length (log_softmax_row (tail_row m k (input ! n)))"
          using wlen [of n] by (simp add: w_def)
        then have "w n ! (j - ?a) = lh ! n ! (nat (?cs ! 0) + k) + tail_lsm m k (input ! n) ! (j - ?a)"
          by (simp add: w_def colk tail_lsm_def)
        moreover have "lh ! n = head_lsm m (input ! n)"
          using n by (simp add: lh LogSoftmax_nth head_lsm_def)
        ultimately show ?thesis using j True by (simp add: nth)
      next
        case False
        then have ik: "i < k" using i by simp
        have "?cs ! (i + 1) \<le> ?cs ! k"
          using valid_cutoff_mono_le [OF v, of "i + 1" k] ik k by simp
        then have "nat (?cs ! (i + 1)) \<le> ?a" by (rule nat_mono)
        then have "j < ?a" using j by linarith
        then show ?thesis using inv n ik j by (simp add: nth assembled_def)
      qed
    }
  qed
  then show ?thesis using step by blast
qed

lemma assembled_loop:
  assumes sh: "shaped m" and v: "valid_cutoff (cutoff m)"
    and ne: "input \<noteq> []" and rows: "\<forall>x \<in> set input. int (length x) = nhid m"
    and lh: "lh = LogSoftmax (map (Linear_row (head m)) input)"
    and K: "K = length (cutoff m) - 1"
  shows "k \<le> K \<Longrightarrow> assembled m input k prob \<Longrightarrow>
         \<exists>p. log_prob_loop m input lh [k..<K] prob = Inr p \<and> assembled m input K p"
proof (induction "K - k" arbitrary: k prob)
  case 0
  then show ?case by simp
next
  case (Suc d)
  then have k: "k < length (cutoff m) - 1" using K by simp
  obtain prob' where p: "log_prob_step m input lh prob k = Inr prob'"
    "assembled m input (Suc k) prob'"
    using assembled_step [OF sh v ne rows k lh Suc.prems(2)] by blast
  have "d = K - Suc k" "Suc k \<le> K" using Suc.hyps(2) by simp_all
  then obtain q where q: "log_prob_loop m input lh [Suc k..<K] prob' = Inr q" "assembled m input K q"
    using Suc.hyps(1) [of "Suc k" prob'] p(2) by blast
  have "[k..<K] = k # [Suc k..<K]" using k K by (simp add: upt_conv_Cons)
  then show ?case using p(1) q by simp
qed

lemma assembled_init:
  assumes sh: "shaped m" and v: "valid_cutoff (cutoff m)"
    and ne: "input \<noteq> []" and rows: "\<forall>x \<in> set input. int (length x) = nhid m"
    and lh: "lh = LogSoftmax (map (Linear_row (head m)) input)"
  shows "\<exists>view src. narrow (zeros (length input) (last (cutoff m))) 0 (output_size m) = Inr view \<and>
           narrow lh 0 (output_size m) = Inr src \<and> same_shape view src \<and>
           assembled m input 0 (set_narrow (zeros (length input) (last (cutoff m))) 0 (add view src))"
proof -
  let ?cs = "cutoff m"
  let ?N = "length input"
  let ?V = "last ?cs"
  let ?W = "output_size m"
  have cne: "?cs \<noteq> []" using v by (simp add: valid_cutoff_def)
  have c00: "0 < ?cs ! 0" using v by (simp add: valid_cutoff_def)
  have Weq: "?W = ?cs ! 0 + int (length ?cs - 1)"
    using shaped_output_size [OF sh] cne by (cases ?cs) simp_all
  have W0: "0 < ?W" using Weq c00 by simp
  have WV: "?W \<le> ?V"
    using valid_cutoff_offset [OF v, of "length ?cs - 1"] cne Weq by (simp add: last_conv_nth)
  have lhlen: "length lh = ?N" by (simp add: lh)
  have lhrow: "length (lh ! n) = nat ?W" if "n < ?N" for n
    using that by (simp add: lh LogSoftmax_nth head_row_length [OF sh])
  have lhrow': "\<forall>r \<in> set lh. length r = nat ?W"
    using lhrow lhlen by (auto simp: in_set_conv_nth)
  have zne: "zeros ?N ?V \<noteq> []" using ne by (simp add: zeros_def)
  define view where "view = replicate ?N (replicate (nat ?W) (0::real))"
  have n1: "narrow (zeros ?N ?V) 0 ?W = Inr view"
  proof -
    have "narrow (zeros ?N ?V) 0 ?W
            = Inr (map (\<lambda>r. take (nat ?W) (drop (nat 0) r)) (zeros ?N ?V))"
      using W0 WV by (intro narrow_ok [OF zne]) (simp_all add: zeros_def)
    then show ?thesis using WV by (simp add: view_def zeros_def min_def)
  qed
  have n2: "narrow lh 0 ?W = Inr lh"
  proof -
    have "narrow lh 0 ?W = Inr (map (\<lambda>r. take (nat ?W) (drop (nat 0) r)) lh)"
      using W0 lhrow' ne lhlen by (intro narrow_ok) auto
    moreover have "map (\<lambda>r. take (nat ?W) (drop (nat 0) r)) lh = lh"
      using lhrow' by (simp add: map_idI)
    ultimately show ?thesis by simp
  qed
  have ss: "same_shape view lh"
    using map_eq_replicate [of lh length "nat ?W"] lhrow'
    by (simp add: same_shape_def view_def lhlen)
  have addn: "add view lh ! n = lh ! n" if "n < ?N" for n
    using that lhrow [OF that] by (simp add: add_nth view_def lhlen zip_replicate_add)
  have "assembled m input 0 (set_narrow (zeros ?N ?V) 0 (add view lh))"
    unfolding assembled_def
  proof (intro conjI allI impI)
    show "length (set_narrow (zeros ?N ?V) 0 (add view lh)) = ?N"
      by (simp add: zeros_def view_def lhlen)
  next
    fix n assume n: "n < ?N"
    have vlen: "length view = ?N" by (simp add: view_def)
    have "set_narrow (zeros ?N ?V) 0 (add view lh) ! n
            = take (nat 0) (zeros ?N ?V ! n) @ add view lh ! n
                @ drop (nat 0 + length (add view lh ! n)) (zeros ?N ?V ! n)"
      using n by (intro set_narrow_nth) (simp_all add: zeros_def vlen lhlen)
    then have row: "set_narrow (zeros ?N ?V) 0 (add view lh) ! n
                 = lh ! n @ replicate (nat ?V - nat ?W) 0"
      using n lhrow [OF n] by (simp add: addn [OF n] zeros_def)
    show "length (set_narrow (zeros ?N ?V) 0 (add view lh) ! n) = nat ?V"
      using WV W0 lhrow [OF n] by (simp add: row)
    {
      fix j assume "j < nat (?cs ! 0)"
      then have "j < length (lh ! n)" using lhrow [OF n] Weq by simp
      then have "set_narrow (zeros ?N ?V) 0 (add view lh) ! n ! j = lh ! n ! j"
        by (simp add: row nth_append)
      moreover have "lh ! n = head_lsm m (input ! n)"
        using n by (simp add: lh LogSoftmax_nth head_lsm_def)
      ultimately show "set_narrow (zeros ?N ?V) 0 (add view lh) ! n ! j = head_lsm m (input ! n) ! j"
        by simp
    }
  qed simp
  then show ?thesis using n1 n2 ss by blast
qed

lemma log_prob_assembled:
  assumes sh: "shaped m" and v: "valid_cutoff (cutoff m)"
    and ne: "input \<noteq> []" and rows: "\<forall>x \<in> set input. int (length x) = nhid m"
  shows "\<exists>lp. log_prob m input = Inr lp \<and> assembled m input (length (cutoff m) - 1) lp"
proof -
  define lh where "lh = LogSoftmax (map (Linear_row (head m)) input)"
  let ?z = "zeros (length input) (last (cutoff m))"
  obtain view src where i: "narrow ?z 0 (output_size m) = Inr view"
    "narrow lh 0 (output_size m) = Inr src" "same_shape view src"
    "assembled m input 0 (set_narrow ?z 0 (add view src))"
    using assembled_init [OF sh v ne rows lh_def] by blast
  obtain p where p: "log_prob_loop m input lh [0..<length (cutoff m) - 1] (set_narrow ?z 0 (add view src)) = Inr p"
    "assembled m input (length (cutoff m) - 1) p"
    using assembled_loop [OF sh v ne rows lh_def refl _ i(4)] by blast
  have cne: "cutoff m \<noteq> []" using v by (simp add: valid_cutoff_def)
  have "log_prob m input = Inr p"
    using cne i(1,2,3) p(1)
    by (simp add: log_prob_def head_forward [OF sh ne rows] Let_def lh_def [symmetric]
        shaped_tail_length [OF sh])
  then show ?thesis using p(2) by blast
qed


text \<open>
  Claim C1. For a model of the constructed shape with valid cutoffs and a non-empty batch
  of hidden states of width \<open>nhid\<close>, \<^verbatim>\<open>log_prob\<close> returns a matrix with one
  row of length \<open>V\<close> per input row; entry \<open>j\<close> below \<open>c0\<close> is entry \<open>j\<close> of the head
  log-softmax, and entry \<open>j\<close> in bin \<open>i\<close> is entry \<open>c0 + i\<close> of the head log-softmax
  plus entry \<open>j - c_i\<close> of the log-softmax of tail classifier \<open>i\<close>.
\<close>

theorem log_prob_entries:
  assumes "shaped m" and "valid_cutoff (cutoff m)"
    and "input \<noteq> []" and "\<forall>x \<in> set input. int (length x) = nhid m"
  shows "\<exists>head_out lp.
           Linear_forward (head m) input = Inr head_out \<and> log_prob m input = Inr lp \<and>
           length lp = length input \<and>
           (\<forall>n < length input.
              length (lp ! n) = nat (last (cutoff m)) \<and>
              (\<forall>j. int j < cutoff m ! 0 \<longrightarrow> lp ! n ! j = LogSoftmax head_out ! n ! j) \<and>
              (\<forall>i < length (cutoff m) - 1.
                 \<exists>tail_out. Sequential_forward (tail m ! i) input = Inr tail_out \<and>
                   (\<forall>j. cutoff m ! i \<le> int j \<and> int j < cutoff m ! (i + 1) \<longrightarrow>
                      lp ! n ! j = LogSoftmax head_out ! n ! (nat (cutoff m ! 0) + i)
                                   + LogSoftmax tail_out ! n ! (j - nat (cutoff m ! i)))))"
proof -
  obtain lp where lp: "log_prob m input = Inr lp" "assembled m input (length (cutoff m) - 1) lp"
    using log_prob_assembled [OF assms] by blast
  let ?h = "map (Linear_row (head m)) input"
  have h: "Linear_forward (head m) input = Inr ?h" using head_forward [OF assms(1,3,4)] .
  have "length lp = length input" using lp(2) by (simp add: assembled_def)
  moreover have "length (lp ! n) = nat (last (cutoff m))" if "n < length input" for n
    using lp(2) that by (simp add: assembled_def)
  moreover have "lp ! n ! j = LogSoftmax ?h ! n ! j"
    if "n < length input" "int j < cutoff m ! 0" for n j
  proof -
    have "j < nat (cutoff m ! 0)" using that(2) by simp
    then show ?thesis using lp(2) that(1) by (simp add: assembled_def LogSoftmax_nth head_lsm_def)
  qed
  moreover have "\<exists>tail_out. Sequential_forward (tail m ! i) input = Inr tail_out \<and>
                   (\<forall>j. cutoff m ! i \<le> int j \<and> int j < cutoff m ! (i + 1) \<longrightarrow>
                      lp ! n ! j = LogSoftmax ?h ! n ! (nat (cutoff m ! 0) + i)
                                   + LogSoftmax tail_out ! n ! (j - nat (cutoff m ! i)))"
    if "n < length input" "i < length (cutoff m) - 1" for n i
  proof -
    have it: "i < length (tail m)" using that(2) shaped_tail_length [OF assms(1)] by simp
    have t: "Sequential_forward (tail m ! i) input = Inr (map (tail_row m i) input)"
      using tail_forward [OF assms(1) it assms(3,4)] .
    have "lp ! n ! j = LogSoftmax ?h ! n ! (nat (cutoff m ! 0) + i)
                       + LogSoftmax (map (tail_row m i) input) ! n ! (j - nat (cutoff m ! i))"
      if j: "cutoff m ! i \<le> int j \<and> int j < cutoff m ! (i + 1)" for j
    proof -
      have "nat (cutoff m ! i) \<le> j \<and> j < nat (cutoff m ! (i + 1))" using j by linarith
      then show ?thesis
        using lp(2) \<open>n < length input\<close> \<open>i < length (cutoff m) - 1\<close>
        by (simp add: assembled_def LogSoftmax_nth head_lsm_def tail_lsm_def)
    qed
    then show ?thesis using t by blast
  qed
  ultimately show ?thesis using h lp(1) by blast
qed

lemma sum_list_exp_pos: "x \<noteq> [] \<Longrightarrow> 0 < sum_list (map exp (x::real list))"
proof (induction x)
  case Nil
  then show ?case by simp
next
  case (Cons a x)
  have "0 \<le> sum_list (map exp x)" by (rule sum_list_nonneg) auto
  moreover have "0 < exp a" by simp
  ultimately have "0 < exp a + sum_list (map exp x)" by (rule add_pos_nonneg [rotated])
  then show ?case by simp
qed

lemma sum_list_divide: "sum_list (map (\<lambda>v. f v / (s::real)) x) = sum_list (map f x) / s"
  by (induction x) (simp_all add: add_divide_distrib)

lemma softmax_sums_to_one:
  assumes "x \<noteq> []"
  shows "sum_list (map exp (log_softmax_row x)) = 1"
proof -
  let ?S = "sum_list (map exp x)"
  have S: "0 < ?S" using assms by (rule sum_list_exp_pos)
  have "map exp (log_softmax_row x) = map (\<lambda>v. exp v / ?S) x"
    using S by (simp add: log_softmax_row_def exp_diff comp_def)
  then show ?thesis using S by (simp add: sum_list_divide)
qed

lemma sum_intervals:
  fixes f :: "nat \<Rightarrow> real" and a :: "nat \<Rightarrow> nat"
  assumes "\<forall>i < k. a i \<le> a (Suc i)"
  shows "sum f {a 0..<a k} = (\<Sum>i<k. sum f {a i..<a (Suc i)})"
  using assms
proof (induction k)
  case 0
  then show ?case by simp
next
  case (Suc k)
  have mono: "a 0 \<le> a i" if "i \<le> k" for i
    using that Suc.prems by (induction i) (auto intro: order_trans)
  have "sum f {a 0..<a (Suc k)} = sum f {a 0..<a k} + sum f {a k..<a (Suc k)}"
    using mono [of k] Suc.prems by (simp add: sum.atLeastLessThan_concat)
  then show ?case using Suc by simp
qed

lemma assembled_row_sum:
  assumes sh: "shaped m" and v: "valid_cutoff (cutoff m)"
    and inv: "assembled m input (length (cutoff m) - 1) lp" and n: "n < length input"
  shows "sum_list (map exp (lp ! n)) = 1"
proof -
  let ?cs = "cutoff m"
  let ?K = "length ?cs - 1"
  let ?r = "lp ! n"
  let ?H = "head_lsm m (input ! n)"
  define a where "a i = nat (?cs ! i)" for i
  define c0 where "c0 = nat (?cs ! 0)"
  have cne: "?cs \<noteq> []" using v by (simp add: valid_cutoff_def)
  have c00: "0 < ?cs ! 0" using v by (simp add: valid_cutoff_def)
  have rl: "length ?r = a ?K" using inv n cne by (simp add: assembled_def a_def last_conv_nth)
  have mono: "a i < a (Suc i)" if "i < ?K" for i
  proof -
    have "?cs ! i < ?cs ! (Suc i)" using valid_cutoff_mono [OF v, of i "Suc i"] that by simp
    moreover have "0 < ?cs ! i" using valid_cutoff_pos [OF v, of i] that by simp
    ultimately show ?thesis by (simp add: a_def)
  qed
  have Hlen: "length ?H = c0 + ?K"
  proof -
    have "output_size m = ?cs ! 0 + int ?K"
      using shaped_output_size [OF sh] cne by (cases ?cs) simp_all
    then show ?thesis using c00 by (simp add: head_lsm_def head_row_length [OF sh] c0_def nat_add_distrib)
  qed
  have "sum_list (map exp ?r) = (\<Sum>j = 0..<a ?K. exp (?r ! j))"
    by (simp add: sum_list_sum_nth rl)
  also have "\<dots> = (\<Sum>j = 0..<a 0. exp (?r ! j)) + (\<Sum>j = a 0..<a ?K. exp (?r ! j))"
  proof -
    have "a 0 \<le> a ?K"
      using valid_cutoff_mono_le [OF v, of 0 ?K] cne by (simp add: a_def)
    then show ?thesis by (simp add: sum.atLeastLessThan_concat)
  qed
  also have "(\<Sum>j = a 0..<a ?K. exp (?r ! j)) = (\<Sum>i<?K. \<Sum>j = a i..<a (Suc i). exp (?r ! j))"
    using mono by (intro sum_intervals) (simp add: less_imp_le)
  also have "\<dots> = (\<Sum>i<?K. exp (?H ! (c0 + i)))"
  proof (rule sum.cong [OF refl])
    fix i assume "i \<in> {..<?K}"
    then have i: "i < ?K" by simp
    have it: "i < length (tail m)" using i shaped_tail_length [OF sh] by simp
    let ?T = "tail_lsm m i (input ! n)"
    have Tlen: "length ?T = a (Suc i) - a i"
    proof -
      have "0 < ?cs ! i" using valid_cutoff_pos [OF v, of i] i by simp
      then show ?thesis using mono [OF i]
        by (simp add: tail_lsm_def tail_row_length [OF sh it] a_def nat_diff_distrib)
    qed
    have Tne: "tail_row m i (input ! n) \<noteq> []" using Tlen mono [OF i] by (auto simp: tail_lsm_def)
    have "(\<Sum>j = a i..<a (Suc i). exp (?r ! j))
            = (\<Sum>j = a i..<a (Suc i). exp (?H ! (c0 + i)) * exp (?T ! (j - a i)))"
    proof (rule sum.cong [OF refl])
      fix j assume "j \<in> {a i..<a (Suc i)}"
      then have "nat (?cs ! i) \<le> j \<and> j < nat (?cs ! (i + 1))" by (simp add: a_def)
      then have "?r ! j = ?H ! (c0 + i) + ?T ! (j - a i)"
        using inv n i by (simp add: assembled_def a_def c0_def)
      then show "exp (?r ! j) = exp (?H ! (c0 + i)) * exp (?T ! (j - a i))"
        by (simp add: exp_add)
    qed
    also have "\<dots> = exp (?H ! (c0 + i)) * (\<Sum>j = a i..<a (Suc i). exp (?T ! (j - a i)))"
      by (simp add: sum_distrib_left)
    also have "(\<Sum>j = a i..<a (Suc i). exp (?T ! (j - a i))) = (\<Sum>l = 0..<a (Suc i) - a i. exp (?T ! l))"
      using mono [OF i] by (subst sum.atLeastLessThan_shift_0) (simp add: comp_def)
    also have "\<dots> = sum_list (map exp ?T)"
      by (simp add: sum_list_sum_nth Tlen)
    also have "\<dots> = 1" unfolding tail_lsm_def using Tne by (rule softmax_sums_to_one)
    finally show "(\<Sum>j = a i..<a (Suc i). exp (?r ! j)) = exp (?H ! (c0 + i))" by simp
  qed
  also have "(\<Sum>j = 0..<a 0. exp (?r ! j)) = (\<Sum>j = 0..<c0. exp (?H ! j))"
  proof (rule sum.cong)
    show "{0..<a 0} = {0..<c0}" by (simp add: a_def c0_def)
  next
    fix j assume "j \<in> {0..<c0}"
    then show "exp (?r ! j) = exp (?H ! j)" using inv n by (simp add: assembled_def c0_def)
  qed
  also have "(\<Sum>i<?K. exp (?H ! (c0 + i))) = (\<Sum>j = c0..<c0 + ?K. exp (?H ! j))"
    by (subst sum.atLeastLessThan_shift_0 [of _ c0]) (simp add: comp_def lessThan_atLeast0)
  also have "(\<Sum>j = 0..<c0. exp (?H ! j)) + (\<Sum>j = c0..<c0 + ?K. exp (?H ! j))
               = (\<Sum>j = 0..<c0 + ?K. exp (?H ! j))"
    by (simp add: sum.atLeastLessThan_concat)
  also have "\<dots> = sum_list (map exp ?H)" by (simp add: sum_list_sum_nth Hlen)
  also have "\<dots> = 1"
  proof -
    have "Linear_row (head m) (input ! n) \<noteq> []"
      using Hlen c00 by (auto simp: head_lsm_def c0_def)
    then show ?thesis unfolding head_lsm_def by (rule softmax_sums_to_one)
  qed
  finally show ?thesis .
qed

text \<open>
  Claim C2. Under the same conditions every row of the matrix that \<^verbatim>\<open>log_prob\<close>
  returns is a log-probability distribution: the exponentials of its entries sum to 1
  (over the reals).
\<close>

theorem log_prob_normalised:
  assumes "shaped m" and "valid_cutoff (cutoff m)"
    and "input \<noteq> []" and "\<forall>x \<in> set input. int (length x) = nhid m"
  shows "\<exists>lp. log_prob m input = Inr lp \<and> length lp = length input \<and>
              (\<forall>n < length input. sum_list (map exp (lp ! n)) = 1)"
proof -
  obtain lp where lp: "log_prob m input = Inr lp" "assembled m input (length (cutoff m) - 1) lp"
    using log_prob_assembled [OF assms] by blast
  have "length lp = length input" using lp(2) by (simp add: assembled_def)
  then show ?thesis using lp assembled_row_sum [OF assms(1,2) lp(2)] by blast
qed


lemma example_model_shaped: "shaped example_model"
  by (simp add: shaped_def example_model_def Linear_shape_def)

lemma example_model_valid: "valid_cutoff (cutoff example_model)"
  by (simp add: valid_cutoff_def example_model_def)

lemma example_input: "\<forall>x \<in> set [[0::real]]. int (length x) = nhid example_model"
  by (simp add: example_model_def)

theorem log_prob_entries_witness:
  "\<exists>head_out lp.
     Linear_forward (head example_model) [[0]] = Inr head_out \<and>
     log_prob example_model [[0]] = Inr lp \<and>
     length lp = length [[0::real]] \<and>
     (\<forall>n < length [[0::real]].
        length (lp ! n) = nat (last (cutoff example_model)) \<and>
        (\<forall>j. int j < cutoff example_model ! 0 \<longrightarrow> lp ! n ! j = LogSoftmax head_out ! n ! j) \<and>
        (\<forall>i < length (cutoff example_model) - 1.
           \<exists>tail_out. Sequential_forward (tail example_model ! i) [[0]] = Inr tail_out \<and>
             (\<forall>j. cutoff example_model ! i \<le> int j \<and> int j < cutoff example_model ! (i + 1) \<longrightarrow>
                lp ! n ! j = LogSoftmax head_out ! n ! (nat (cutoff example_model ! 0) + i)
                             + LogSoftmax tail_out ! n ! (j - nat (cutoff example_model ! i)))))"
  by (rule log_prob_entries [OF example_model_shaped example_model_valid _ example_input]) simp

theorem log_prob_normalised_witness:
  "\<exists>lp. log_prob example_model [[0]] = Inr lp \<and> length lp = length [[0::real]] \<and>
        (\<forall>n < length [[0::real]]. sum_list (map exp (lp ! n)) = 1)"
  by (rule log_prob_normalised [OF example_model_shaped example_model_valid _ example_input]) simp

section \<open>The training path: router, forward and loss\<close>


lemma mask_sum_nonzero: "0 < mask_sum msk \<longleftrightarrow> nonzero msk \<noteq> []"
proof -
  have "0 < mask_sum msk \<longleftrightarrow> (\<exists>b \<in> set msk. b)"
    by (simp add: mask_sum_def filter_empty_conv)
  also have "\<dots> \<longleftrightarrow> (\<exists>n < length msk. msk ! n)"
    by (metis in_set_conv_nth)
  also have "\<dots> \<longleftrightarrow> nonzero msk \<noteq> []"
    by (simp add: nonzero_def filter_empty_conv Bex_def)
  finally show ?thesis .
qed

lemma routed_set: "set (routed cs target i) = {n. n < length target \<and> in_bin cs i (target ! n)}"
  by (auto simp: routed_def nonzero_def bin_mask_nth)

lemma routed_distinct: "distinct (routed cs target i)"
  by (simp add: routed_def nonzero_def)

lemma routed_empty_iff: "routed cs target i = [] \<longleftrightarrow> (\<forall>t \<in> set target. \<not> in_bin cs i t)"
proof -
  have "routed cs target i = [] \<longleftrightarrow> set (routed cs target i) = {}" by simp
  also have "\<dots> \<longleftrightarrow> (\<forall>n < length target. \<not> in_bin cs i (target ! n))"
    by (auto simp: routed_set)
  also have "\<dots> \<longleftrightarrow> (\<forall>t \<in> set target. \<not> in_bin cs i t)"
    by (simp add: all_set_conv_all_nth)
  finally show ?thesis .
qed

lemma set_target_fields [simp]:
  "cutoff (set_target m target) = cutoff m"
  "tail (set_target m target) = tail m"
  "head (set_target m target) = head m"
  "nhid (set_target m target) = nhid m"
  "output_size (set_target m target) = output_size m"
  by (simp_all add: set_target_def)

lemma shaped_set_target: "shaped (set_target m target) = shaped m"
  by (simp add: shaped_def)

lemma set_target_routed:
  "id' (set_target m target) =
     Some (map (\<lambda>i. if routed (cutoff m) target i = [] then None
                     else Some (routed (cutoff m) target i))
            [0..<length (cutoff m) - 1])"
  by (simp add: set_target_id mask_sum_nonzero routed_def)

lemma tail_row_set_target [simp]: "tail_row (set_target m target) i x = tail_row m i x"
  by (simp add: tail_row_def)

lemma forward_loop_append:
  "forward_loop m input ids (xs @ ys) st =
     (case forward_loop m input ids xs st of
        Inl e \<Rightarrow> Inl e
      | Inr st' \<Rightarrow> forward_loop m input ids ys st')"
proof (induction xs arbitrary: st)
  case Nil
  then show ?case by simp
next
  case (Cons i xs)
  show ?case
  proof (cases "ids ! i")
    case None
    then show ?thesis by (simp add: Cons)
  next
    case (Some sel)
    show ?thesis
    proof (cases "index_select input sel")
      case (Inl e)
      then show ?thesis using Some by simp
    next
      case (Inr rows)
      then show ?thesis using Some
        by (cases "Sequential_forward (tail m ! i) rows") (simp_all add: Cons)
    qed
  qed
qed

lemma index_select_ok:
  "\<forall>n \<in> set idx. n < length input \<Longrightarrow> index_select input idx = Inr (map (\<lambda>n. input ! n) idx)"
  by (auto simp: index_select_def)



lemma forward_loop_closed:
  assumes sh: "shaped m" and rows: "\<forall>x \<in> set input. int (length x) = nhid m"
    and len: "length input = length target"
    and ids: "ids = map (\<lambda>i. if routed (cutoff m) target i = [] then None
                             else Some (routed (cutoff m) target i))
                      [0..<length (cutoff m) - 1]"
  shows "k \<le> length (cutoff m) - 1 \<Longrightarrow>
         forward_loop m input ids [0..<k] st
           = Inr (fst st @ map (tail_slot m input target) [0..<k],
                  snd st @ filter (\<lambda>i. routed (cutoff m) target i \<noteq> []) [0..<k])"
proof (induction k)
  case 0
  then show ?case by simp
next
  case (Suc k)
  let ?sel = "routed (cutoff m) target k"
  have k: "k < length (cutoff m) - 1" using Suc.prems by simp
  have kt: "k < length (tail m)" using k shaped_tail_length [OF sh] by simp
  have idk: "ids ! k = (if ?sel = [] then None else Some ?sel)" using k by (simp add: ids)
  have IH: "forward_loop m input ids [0..<k] st
              = Inr (fst st @ map (tail_slot m input target) [0..<k],
                     snd st @ filter (\<lambda>i. routed (cutoff m) target i \<noteq> []) [0..<k])"
    using Suc by simp
  have split: "forward_loop m input ids [0..<Suc k] st
                 = forward_loop m input ids [k]
                     (fst st @ map (tail_slot m input target) [0..<k],
                      snd st @ filter (\<lambda>i. routed (cutoff m) target i \<noteq> []) [0..<k])"
  proof -
    have "[0..<Suc k] = [0..<k] @ [k]" by simp
    then show ?thesis by (simp only: forward_loop_append IH sum.case)
  qed
  show ?case
  proof (cases "?sel = []")
    case True
    then have "ids ! k = None" using idk by simp
    then have "forward_loop m input ids [k]
            (fst st @ map (tail_slot m input target) [0..<k],
             snd st @ filter (\<lambda>i. routed (cutoff m) target i \<noteq> []) [0..<k])
          = Inr ((fst st @ map (tail_slot m input target) [0..<k]) @ [None],
                 snd st @ filter (\<lambda>i. routed (cutoff m) target i \<noteq> []) [0..<k])"
      by simp
    moreover have "tail_slot m input target k = None" using True by (simp add: tail_slot_def)
    ultimately show ?thesis using True unfolding split by simp
  next
    case False
    then have some: "ids ! k = Some ?sel" using idk by simp
    have bound: "\<forall>n \<in> set ?sel. n < length input" using len by (simp add: routed_set)
    have sel: "index_select input ?sel = Inr (map (\<lambda>n. input ! n) ?sel)"
      using index_select_ok [OF bound] .
    have "Sequential_forward (tail m ! k) (map (\<lambda>n. input ! n) ?sel)
            = Inr (map (tail_row m k) (map (\<lambda>n. input ! n) ?sel))"
    proof (rule tail_forward [OF sh kt])
      show "map (\<lambda>n. input ! n) ?sel \<noteq> []" using False by simp
      show "\<forall>x \<in> set (map (\<lambda>n. input ! n) ?sel). int (length x) = nhid m"
        using rows bound by auto
    qed
    then have seq: "Sequential_forward (tail m ! k) (map (\<lambda>n. input ! n) ?sel)
            = Inr (map (\<lambda>n. tail_row m k (input ! n)) ?sel)"
      by (simp add: comp_def)
    have slot: "tail_slot m input target k = Some (map (\<lambda>n. tail_row m k (input ! n)) ?sel)"
      using False by (simp add: tail_slot_def)
    have "forward_loop m input ids [k]
            (fst st @ map (tail_slot m input target) [0..<k],
             snd st @ filter (\<lambda>i. routed (cutoff m) target i \<noteq> []) [0..<k])
          = Inr ((fst st @ map (tail_slot m input target) [0..<k])
                   @ [Some (map (\<lambda>n. tail_row m k (input ! n)) ?sel)],
                 (snd st @ filter (\<lambda>i. routed (cutoff m) target i \<noteq> []) [0..<k]) @ [k])"
      using kt by (simp add: some sel seq)
    then show ?thesis using False unfolding split by (simp add: slot)
  qed
qed




lemma forward_closed:
  assumes sh: "shaped m" and ne: "input \<noteq> []" and rows: "\<forall>x \<in> set input. int (length x) = nhid m"
    and len: "length input = length target"
  shows "AdaptiveSoftmax_forward (set_target m target) input
           = Inr (Some (map (Linear_row (head m)) input)
                    # map (tail_slot m input target) [0..<length (cutoff m) - 1],
                  filter (\<lambda>i. routed (cutoff m) target i \<noteq> []) [0..<length (cutoff m) - 1])"
proof -
  let ?m = "set_target m target"
  have sh': "shaped ?m" using sh by (simp add: shaped_set_target)
  have rows': "\<forall>x \<in> set input. int (length x) = nhid ?m" using rows by simp
  have slot: "tail_slot ?m input target = tail_slot m input target"
    by (rule ext) (simp add: tail_slot_def)
  define ids where "ids = map (\<lambda>i. if routed (cutoff m) target i = [] then None
                     else Some (routed (cutoff m) target i)) [0..<length (cutoff m) - 1]"
  have ids': "ids = map (\<lambda>i. if routed (cutoff ?m) target i = [] then None
                     else Some (routed (cutoff ?m) target i)) [0..<length (cutoff ?m) - 1]"
    by (simp add: ids_def cong: if_cong)
  have "forward_loop ?m input ids [0..<length (cutoff m) - 1]
          ([Some (map (Linear_row (head m)) input)], [])
        = Inr ([Some (map (Linear_row (head m)) input)]
                 @ map (tail_slot m input target) [0..<length (cutoff m) - 1],
               filter (\<lambda>i. routed (cutoff m) target i \<noteq> []) [0..<length (cutoff m) - 1])"
    using forward_loop_closed [OF sh' rows' len ids', of "length (cutoff m) - 1"
        "([Some (map (Linear_row (head m)) input)], [])"]
    by (simp add: slot)
  then show ?thesis
    unfolding ids_def using head_forward [OF sh ne rows]
    by (simp add: AdaptiveSoftmax_forward_def set_target_routed)
qed


lemma loss_loop_sum:
  assumes "\<forall>j<k. input ! j = None \<or>
             (\<exists>x t. input ! j = Some x \<and> check_target x target j = Inr t \<and>
                    CrossEntropyLoss x t = Inr (val j))"
  shows "loss_loop dbg input target [0..<k] out
           = Inr (out + (\<Sum>j<k. if input ! j = None then 0 else val j))"
  using assms
proof (induction k)
  case 0
  then show ?case by simp
next
  case (Suc k)
  let ?s = "out + (\<Sum>j<k. if input ! j = None then 0 else val j)"
  have IH: "loss_loop dbg input target [0..<k] out = Inr ?s" using Suc by simp
  have step: "loss_loop dbg input target [0..<Suc k] out = loss_loop dbg input target [k] ?s"
  proof -
    have "[0..<Suc k] = [0..<k] @ [k]" by simp
    then show ?thesis by (simp only: loss_loop_append IH sum.case)
  qed
  have "input ! k = None \<or>
          (\<exists>x t. input ! k = Some x \<and> check_target x target k = Inr t \<and>
                 CrossEntropyLoss x t = Inr (val k))"
    using Suc.prems by simp
  then have "loss_loop dbg input target [k] ?s
               = Inr (?s + (if input ! k = None then 0 else val k))"
    by auto
  then show ?case unfolding step by (simp add: add.assoc)
qed

lemma CrossEntropyLoss_map:
  assumes "idx \<noteq> []" and "\<forall>n \<in> set idx. 0 \<le> g n \<and> g n < int (length (f n))"
  shows "CrossEntropyLoss (map f idx) (map g idx)
           = Inr (\<Sum>n\<leftarrow>idx. - (log_softmax_row (f n) ! nat (g n)))"
proof -
  have z: "zip (map f idx) (map g idx) = map (\<lambda>n. (f n, g n)) idx"
    by (simp add: zip_map_map zip_same_conv_map)
  have "\<not> (\<exists>(x, t) \<in> set (zip (map f idx) (map g idx)). t < 0 \<or> int (length x) \<le> t)"
    using assms(2) unfolding z by fastforce
  then show ?thesis
    using assms(1) unfolding CrossEntropyLoss_def z by (simp add: comp_def)
qed

lemma in_bin_loss_cutoff:
  assumes "t < V" "V \<le> V'" "i < length pre"
  shows "in_bin (pre @ [V']) i t = in_bin (pre @ [V]) i t"
proof (cases "i + 1 < length pre")
  case True
  then show ?thesis using assms(3) by (simp add: in_bin_def nth_append)
next
  case False
  then have "i + 1 = length pre" using assms(3) by simp
  then show ?thesis using assms by (auto simp: in_bin_def nth_append)
qed

lemma bin_mask_loss_cutoff:
  assumes "\<forall>t \<in> set target. t < V" "V \<le> V'" "i < length pre"
  shows "bin_mask (pre @ [V']) i target = bin_mask (pre @ [V]) i target"
  unfolding bin_mask_eq using assms by (simp add: in_bin_loss_cutoff)

lemma valid_cutoff_extend:
  assumes "valid_cutoff (pre @ [V])" "V \<le> V'"
  shows "valid_cutoff (pre @ [V'])"
proof -
  have s: "sorted_wrt (\<lambda>a b. a < b) pre" "\<forall>x \<in> set pre. x < V" "0 < (pre @ [V]) ! 0"
    using assms(1) by (simp_all add: valid_cutoff_def sorted_wrt_append)
  have "0 < (pre @ [V']) ! 0" using s(3) assms(2) by (cases pre) auto
  moreover have "\<forall>x \<in> set pre. x < V'" using s(2) assms(2) by auto
  ultimately show ?thesis using s(1) by (simp add: valid_cutoff_def sorted_wrt_append)
qed

lemma local_ids_routed:
  assumes "\<forall>t \<in> set target. t < V" "V \<le> V'" "i < length pre"
  shows "local_ids (pre @ [V']) target i =
           (if routed (pre @ [V]) target i = [] then None
            else Some (map (\<lambda>n. target ! n - (pre @ [V]) ! i) (routed (pre @ [V]) target i)))"
proof -
  have m: "bin_mask (pre @ [V']) i target = bin_mask (pre @ [V]) i target"
    using assms by (rule bin_mask_loss_cutoff)
  have sel: "masked_select target (bin_mask (pre @ [V]) i target)
               = map (\<lambda>n. target ! n) (routed (pre @ [V]) target i)"
    unfolding routed_def by (rule masked_select_nonzero) simp
  have c: "(pre @ [V']) ! i = (pre @ [V]) ! i" using assms(3) by (simp add: nth_append)
  show ?thesis
    unfolding local_ids_def m sel c mask_sum_nonzero
    by (simp add: routed_def add_scalar_def comp_def)
qed


lemma size1_map:
  assumes "idx \<noteq> []" "\<forall>n \<in> set idx. length (f n) = w"
  shows "size1 (map f idx) = Inr w"
  using assms by (cases idx) (simp_all add: size1_def)

lemma check_target_ok:
  assumes "idx \<noteq> []" and "\<forall>n \<in> set idx. length (f n) = w"
    and "\<forall>n \<in> set idx. 0 \<le> g n \<and> g n < int w"
    and "j < length tgt" and "tgt ! j = Some (map g idx)"
  shows "check_target (map f idx) tgt j = Inr (map g idx)"
proof -
  have ne: "map g idx \<noteq> []" using assms(1) by simp
  have mn: "0 \<le> Min (set (map g idx))" using assms(1,3) by simp
  have mx: "Max (set (map g idx)) \<le> int w" using assms(1,3) by (auto simp: less_imp_le)
  show ?thesis
    using ne mn mx assms(4,5) by (simp add: check_target_def size1_map [OF assms(1,2)])
qed

lemma slot_ok:
  assumes "idx \<noteq> []" and "\<forall>n \<in> set idx. length (f n) = w"
    and "\<forall>n \<in> set idx. 0 \<le> g n \<and> g n < int w"
    and "j < length tgt" and "tgt ! j = Some (map g idx)" and "input ! j = Some (map f idx)"
  shows "\<exists>x t. input ! j = Some x \<and> check_target x tgt j = Inr t \<and>
               CrossEntropyLoss x t = Inr (\<Sum>n\<leftarrow>idx. - (log_softmax_row (f n) ! nat (g n)))"
proof -
  have "CrossEntropyLoss (map f idx) (map g idx)
          = Inr (\<Sum>n\<leftarrow>idx. - (log_softmax_row (f n) ! nat (g n)))"
    using assms(1,2,3) by (intro CrossEntropyLoss_map) auto
  then show ?thesis using check_target_ok [OF assms(1-5)] assms(6) by blast
qed

lemma remapped_head:
  assumes v: "valid_cutoff (pre @ [V])" and VV: "V \<le> V'"
    and cl: "loss_cutoff c = pre @ [V']"
    and tg: "\<forall>t \<in> set target. 0 \<le> t \<and> t < V"
  shows "\<exists>r. remap_target c target = Some r # map (local_ids (pre @ [V']) target) [0..<length pre] \<and>
             length r = length target \<and>
             (\<forall>n < length target.
                0 \<le> r ! n \<and> r ! n < (pre @ [V]) ! 0 + int (length pre) \<and>
                ((\<forall>i < length pre. \<not> in_bin (pre @ [V]) i (target ! n)) \<longrightarrow>
                    r ! n = target ! n \<and> target ! n < (pre @ [V]) ! 0) \<and>
                (\<forall>i < length pre. in_bin (pre @ [V]) i (target ! n) \<longrightarrow>
                    r ! n = (pre @ [V]) ! 0 + int i))"
proof -
  let ?cs = "pre @ [V]"
  let ?lc = "pre @ [V']"
  define r where "r = fst (foldl (remap_step ?lc target) (target, []) [0..<length pre])"
  have v': "valid_cutoff ?lc" using valid_cutoff_extend [OF v VV] .
  have c00: "0 < ?cs ! 0" using v by (simp add: valid_cutoff_def)
  have eq: "remap_target c target = Some r # map (local_ids ?lc target) [0..<length pre]"
    by (simp add: remap_target_eq cl r_def)
  have rl: "length r = length target" by (simp add: r_def remap_fold_fst_length)
  have bins: "in_bin ?lc i (target ! n) = in_bin ?cs i (target ! n)"
    if "n < length target" "i < length pre" for n i
    using in_bin_loss_cutoff [OF _ VV that(2)] tg that(1) by simp
  have "0 \<le> r ! n \<and> r ! n < ?cs ! 0 + int (length pre) \<and>
          ((\<forall>i < length pre. \<not> in_bin ?cs i (target ! n)) \<longrightarrow>
              r ! n = target ! n \<and> target ! n < ?cs ! 0) \<and>
          (\<forall>i < length pre. in_bin ?cs i (target ! n) \<longrightarrow> r ! n = ?cs ! 0 + int i)"
    if n: "n < length target" for n
  proof -
    have t: "0 \<le> target ! n" "target ! n < V" using tg n by simp_all
    have inside: "r ! n = ?cs ! 0 + int i" if i: "i < length pre" "in_bin ?cs i (target ! n)" for i
    proof -
      have "in_bin ?lc i (target ! n)" using bins [OF n i(1)] i(2) by simp
      then have "r ! n = ?lc ! 0 + int i"
        unfolding r_def using i(1) n
        by (intro remap_fold_fst_inside [OF v']) simp_all
      moreover have "?lc ! 0 = ?cs ! 0" using i(1) by (cases pre) simp_all
      ultimately show ?thesis by simp
    qed
    have outside: "r ! n = target ! n \<and> target ! n < ?cs ! 0"
      if no: "\<forall>i < length pre. \<not> in_bin ?cs i (target ! n)"
    proof -
      have "\<forall>i < length pre. \<not> in_bin ?lc i (target ! n)" using no bins [OF n] by simp
      then have a: "r ! n = target ! n"
        unfolding r_def using n by (intro remap_fold_fst_outside) simp_all
      have "target ! n < ?cs ! 0"
      proof (rule ccontr)
        assume "\<not> target ! n < ?cs ! 0"
        then have "?cs ! 0 \<le> target ! n" by simp
        then obtain i where "i < length ?cs - 1" "in_bin ?cs i (target ! n)"
          using in_bin_exists [OF v, of "target ! n"] t(2) by auto
        then show False using no by simp
      qed
      then show ?thesis using a by simp
    qed
    show ?thesis
    proof (cases "\<exists>i < length pre. in_bin ?cs i (target ! n)")
      case True
      then obtain i where i: "i < length pre" "in_bin ?cs i (target ! n)" by blast
      have "r ! n = ?cs ! 0 + int i" using inside [OF i] .
      then show ?thesis using i c00 inside by auto
    next
      case False
      then have "r ! n = target ! n \<and> target ! n < ?cs ! 0" using outside by simp
      then show ?thesis using t(1) False by auto
    qed
  qed
  then show ?thesis using eq rl by blast
qed


lemma head_slot_ok:
  assumes sh: "shaped m" and ne: "input \<noteq> []" and len: "length input = length target"
    and rl: "length r = length target"
    and rb: "\<forall>n < length target. 0 \<le> r ! n \<and> r ! n < output_size m"
    and t0: "tgt ! 0 = Some r" "0 < length tgt"
    and i0: "out ! 0 = Some (map (Linear_row (head m)) input)"
  shows "\<exists>x t. out ! 0 = Some x \<and> check_target x tgt 0 = Inr t \<and>
               CrossEntropyLoss x t = Inr (head_nll m input r)"
proof -
  let ?idx = "[0..<length target]"
  let ?f = "\<lambda>n. Linear_row (head m) (input ! n)"
  let ?g = "\<lambda>n. r ! n"
  have f: "map ?f ?idx = map (Linear_row (head m)) input"
    using len by (intro nth_equalityI) simp_all
  have g: "map ?g ?idx = r" using rl by (intro nth_equalityI) simp_all
  have idx: "?idx \<noteq> []" using ne len by auto
  have w: "\<forall>n \<in> set ?idx. length (?f n) = nat (output_size m)"
    by (simp add: head_row_length [OF sh])
  have b: "\<forall>n \<in> set ?idx. 0 \<le> ?g n \<and> ?g n < int (nat (output_size m))"
    using rb by auto
  have "\<exists>x t. out ! 0 = Some x \<and> check_target x tgt 0 = Inr t \<and>
          CrossEntropyLoss x t = Inr (\<Sum>n\<leftarrow>?idx. - (log_softmax_row (?f n) ! nat (?g n)))"
    using t0 i0 by (intro slot_ok [OF idx w b]) (simp_all add: f g)
  then show ?thesis by (simp add: head_nll_def head_lsm_def rl)
qed

lemma tail_slot_ok:
  assumes sh: "shaped m" and v: "valid_cutoff (cutoff m)"
    and i: "i < length (cutoff m) - 1" and r: "routed (cutoff m) target i \<noteq> []"
    and ti: "tgt ! Suc i = Some (map (\<lambda>n. target ! n - cutoff m ! i) (routed (cutoff m) target i))"
      "Suc i < length tgt"
    and oi: "out ! Suc i = tail_slot m input target i"
  shows "\<exists>x t. out ! Suc i = Some x \<and> check_target x tgt (Suc i) = Inr t \<and>
               CrossEntropyLoss x t = Inr (tail_nll m input target i)"
proof -
  let ?idx = "routed (cutoff m) target i"
  let ?f = "\<lambda>n. tail_row m i (input ! n)"
  let ?g = "\<lambda>n. target ! n - cutoff m ! i"
  let ?w = "nat (cutoff m ! (i + 1) - cutoff m ! i)"
  have it: "i < length (tail m)" using i shaped_tail_length [OF sh] by simp
  have w: "\<forall>n \<in> set ?idx. length (?f n) = ?w" by (simp add: tail_row_length [OF sh it])
  have b: "\<forall>n \<in> set ?idx. 0 \<le> ?g n \<and> ?g n < int ?w"
    by (auto simp: routed_set in_bin_def)
  have o: "out ! Suc i = Some (map ?f ?idx)" using oi r by (simp add: tail_slot_def)
  have "\<exists>x t. out ! Suc i = Some x \<and> check_target x tgt (Suc i) = Inr t \<and>
          CrossEntropyLoss x t = Inr (\<Sum>n\<leftarrow>?idx. - (log_softmax_row (?f n) ! nat (?g n)))"
    using ti o by (intro slot_ok [OF r w b]) simp_all
  then show ?thesis by (simp add: tail_nll_def tail_lsm_def)
qed

lemma pipeline_loss:
  assumes sh: "shaped m" and v: "valid_cutoff (cutoff m)"
    and cm: "cutoff m = pre @ [V]" and cl: "loss_cutoff c = pre @ [V']" and VV: "V \<le> V'"
    and tg: "\<forall>t \<in> set target. 0 \<le> t \<and> t < V"
    and ne: "input \<noteq> []" and len: "length input = length target"
    and rm: "remap_target c target = Some r # map (local_ids (pre @ [V']) target) [0..<length pre]"
    and rl: "length r = length target"
    and rb: "\<forall>n < length target. 0 \<le> r ! n \<and> r ! n < (pre @ [V]) ! 0 + int (length pre)"
  shows "AdaptiveLoss_forward c dbg
           (Some (map (Linear_row (head m)) input) # map (tail_slot m input target) [0..<length pre])
           target
         = Inr ((head_nll m input r + (\<Sum>i<length pre. tail_nll m input target i))
                / real (length target))"
proof -
  let ?K = "length pre"
  let ?h = "map (Linear_row (head m)) input"
  let ?out = "Some ?h # map (tail_slot m input target) [0..<?K]"
  let ?tgt = "remap_target c target"
  define val where "val j = (case j of 0 \<Rightarrow> head_nll m input r | Suc i \<Rightarrow> tail_nll m input target i)" for j
  have K: "length (cutoff m) - 1 = ?K" by (simp add: cm)
  have os: "output_size m = (pre @ [V]) ! 0 + int ?K"
    using shaped_output_size [OF sh] by (simp add: cm)
  have lt: "\<forall>t \<in> set target. t < V" using tg by blast
  have slots: "\<forall>j<Suc ?K. ?out ! j = None \<or>
             (\<exists>x t. ?out ! j = Some x \<and> check_target x ?tgt j = Inr t \<and>
                    CrossEntropyLoss x t = Inr (val j))"
  proof (intro allI impI)
    fix j assume j: "j < Suc ?K"
    show "?out ! j = None \<or>
             (\<exists>x t. ?out ! j = Some x \<and> check_target x ?tgt j = Inr t \<and>
                    CrossEntropyLoss x t = Inr (val j))"
    proof (cases j)
      case 0
      have "\<exists>x t. ?out ! 0 = Some x \<and> check_target x ?tgt 0 = Inr t \<and>
               CrossEntropyLoss x t = Inr (head_nll m input r)"
        using rb by (intro head_slot_ok [OF sh ne len rl]) (simp_all add: rm os)
      then show ?thesis using 0 by (simp add: val_def)
    next
      case (Suc i)
      then have i: "i < ?K" using j by simp
      show ?thesis
      proof (cases "routed (cutoff m) target i = []")
        case True
        then show ?thesis using Suc i by (simp add: tail_slot_def)
      next
        case False
        have ik: "i < length (cutoff m) - 1" using i K by simp
        have li: "local_ids (pre @ [V']) target i
                    = Some (map (\<lambda>n. target ! n - cutoff m ! i) (routed (cutoff m) target i))"
          using local_ids_routed [OF lt VV i] False by (simp add: cm)
        have "\<exists>x t. ?out ! Suc i = Some x \<and> check_target x ?tgt (Suc i) = Inr t \<and>
               CrossEntropyLoss x t = Inr (tail_nll m input target i)"
          using i li by (intro tail_slot_ok [OF sh v ik False]) (simp_all add: rm)
        then show ?thesis using Suc by (simp add: val_def)
      qed
    qed
  qed
  have "loss_loop dbg ?out ?tgt [0..<Suc ?K] 0
          = Inr (0 + (\<Sum>j<Suc ?K. if ?out ! j = None then 0 else val j))"
    using slots by (rule loss_loop_sum)
  also have "(\<Sum>j<Suc ?K. if ?out ! j = None then 0 else val j)
               = head_nll m input r + (\<Sum>i<?K. if tail_slot m input target i = None then 0
                                              else tail_nll m input target i)"
  proof -
    let ?F = "\<lambda>j. if ?out ! j = None then 0 else val j"
    have "(\<Sum>j<Suc ?K. ?F j) = ?F 0 + (\<Sum>i<?K. ?F (Suc i))"
      by (rule sum.lessThan_Suc_shift)
    moreover have "?F 0 = head_nll m input r" by (simp add: val_def)
    moreover have "(\<Sum>i<?K. ?F (Suc i))
                     = (\<Sum>i<?K. if tail_slot m input target i = None then 0
                                    else tail_nll m input target i)"
      by (intro sum.cong refl) (simp add: val_def)
    ultimately show ?thesis by simp
  qed
  also have "(\<Sum>i<?K. if tail_slot m input target i = None then 0 else tail_nll m input target i)
               = (\<Sum>i<?K. tail_nll m input target i)"
    by (intro sum.cong refl) (simp add: tail_slot_def tail_nll_def)
  finally have loop: "loss_loop dbg ?out ?tgt [0..<Suc ?K] 0
          = Inr (head_nll m input r + (\<Sum>i<?K. tail_nll m input target i))"
    by simp
  have "[0..<length ?out] = [0..<Suc ?K]" by simp
  then show ?thesis
    unfolding AdaptiveLoss_forward_def using ne len loop
    by (simp only: list.case option.case Let_def) simp
qed


lemma tail_nll_sum:
  "tail_nll m input target i
     = (\<Sum>n<length target. if in_bin (cutoff m) i (target ! n)
                              then - (tail_lsm m i (input ! n) ! nat (target ! n - cutoff m ! i))
                              else 0)"
proof -
  let ?g = "\<lambda>n. - (tail_lsm m i (input ! n) ! nat (target ! n - cutoff m ! i))"
  have "tail_nll m input target i = sum ?g (set (routed (cutoff m) target i))"
    unfolding tail_nll_def using routed_distinct by (simp add: sum_list_distinct_conv_sum_set)
  also have "set (routed (cutoff m) target i)
               = {n \<in> {..<length target}. in_bin (cutoff m) i (target ! n)}"
    by (auto simp: routed_set)
  also have "sum ?g {n \<in> {..<length target}. in_bin (cutoff m) i (target ! n)}
               = (\<Sum>n<length target. if in_bin (cutoff m) i (target ! n) then ?g n else 0)"
    by (rule sum.inter_filter) simp
  finally show ?thesis .
qed

lemma head_nll_sum:
  "head_nll m input r = (\<Sum>n<length r. - (head_lsm m (input ! n) ! nat (r ! n)))"
  by (simp add: head_nll_def interv_sum_list_conv_sum_set_nat lessThan_atLeast0)

lemma dense_entry:
  assumes v: "valid_cutoff (cutoff m)" and cm: "cutoff m = pre @ [V]"
    and inv: "assembled m input (length pre) lp" and n: "n < length input"
    and t: "0 \<le> t"
    and out: "(\<forall>i < length pre. \<not> in_bin (pre @ [V]) i t) \<longrightarrow> rn = t \<and> t < (pre @ [V]) ! 0"
    and ins: "\<forall>i < length pre. in_bin (pre @ [V]) i t \<longrightarrow> rn = (pre @ [V]) ! 0 + int i"
  shows "- (lp ! n ! nat t)
           = - (head_lsm m (input ! n) ! nat rn)
             + (\<Sum>i<length pre. if in_bin (cutoff m) i t
                                  then - (tail_lsm m i (input ! n) ! nat (t - cutoff m ! i))
                                  else 0)"
proof (cases "\<exists>i < length pre. in_bin (pre @ [V]) i t")
  case False
  then have r: "rn = t" "t < (pre @ [V]) ! 0" using out by simp_all
  have "nat t < nat (cutoff m ! 0)" using r(2) t by (simp add: cm)
  then have "lp ! n ! nat t = head_lsm m (input ! n) ! nat t"
    using inv n by (simp add: assembled_def)
  moreover have "(\<Sum>i<length pre. if in_bin (cutoff m) i t
                    then - (tail_lsm m i (input ! n) ! nat (t - cutoff m ! i)) else 0) = 0"
    using False by (intro sum.neutral) (simp add: cm)
  ultimately show ?thesis using r(1) by simp
next
  case True
  then obtain i where i: "i < length pre" "in_bin (pre @ [V]) i t" by blast
  let ?cs = "cutoff m"
  have ik: "i < length ?cs - 1" using i(1) by (simp add: cm)
  have ib: "in_bin ?cs i t" using i(2) by (simp add: cm)
  have rn: "rn = ?cs ! 0 + int i" using ins i by (simp add: cm)
  have c00: "0 < ?cs ! 0" using v by (simp add: valid_cutoff_def)
  have ci: "0 < ?cs ! i" using valid_cutoff_pos [OF v, of i] ik by simp
  have bnd: "?cs ! i \<le> t" "t < ?cs ! (i + 1)" using ib by (simp_all add: in_bin_def)
  have "nat (?cs ! i) \<le> nat t \<and> nat t < nat (?cs ! (i + 1))" using bnd ci by simp
  then have "lp ! n ! nat t = head_lsm m (input ! n) ! (nat (?cs ! 0) + i)
                               + tail_lsm m i (input ! n) ! (nat t - nat (?cs ! i))"
    using inv n i(1) by (simp add: assembled_def)
  moreover have "nat (?cs ! 0) + i = nat rn" using rn c00 by (simp add: nat_add_distrib)
  moreover have "nat t - nat (?cs ! i) = nat (t - ?cs ! i)" using bnd ci by (simp add: nat_diff_distrib)
  moreover have "(\<Sum>i'<length pre. if in_bin ?cs i' t
                    then - (tail_lsm m i' (input ! n) ! nat (t - ?cs ! i')) else 0)
                   = - (tail_lsm m i (input ! n) ! nat (t - ?cs ! i))"
  proof -
    have "(\<Sum>i'<length pre. if in_bin ?cs i' t
              then - (tail_lsm m i' (input ! n) ! nat (t - ?cs ! i')) else 0)
            = (\<Sum>i'<length pre. if i' = i
                 then - (tail_lsm m i (input ! n) ! nat (t - ?cs ! i)) else 0)"
    proof (rule sum.cong [OF refl])
      fix i' assume "i' \<in> {..<length pre}"
      then have i': "i' < length ?cs - 1" by (simp add: cm)
      have "in_bin ?cs i' t \<longleftrightarrow> i' = i"
        using in_bin_unique [OF v i' _ ik ib] ib by blast
      then show "(if in_bin ?cs i' t then - (tail_lsm m i' (input ! n) ! nat (t - ?cs ! i')) else 0)
                   = (if i' = i then - (tail_lsm m i (input ! n) ! nat (t - ?cs ! i)) else 0)"
        by simp
    qed
    also have "\<dots> = - (tail_lsm m i (input ! n) ! nat (t - ?cs ! i))"
      using i(1) by simp
    finally show ?thesis .
  qed
  ultimately show ?thesis by simp
qed

lemma dense_nll:
  assumes v: "valid_cutoff (cutoff m)" and cm: "cutoff m = pre @ [V]"
    and inv: "assembled m input (length pre) lp" and len: "length input = length target"
    and rl: "length r = length target"
    and tg: "\<forall>t \<in> set target. 0 \<le> t"
    and rp: "\<forall>n < length target.
                ((\<forall>i < length pre. \<not> in_bin (pre @ [V]) i (target ! n)) \<longrightarrow>
                    r ! n = target ! n \<and> target ! n < (pre @ [V]) ! 0) \<and>
                (\<forall>i < length pre. in_bin (pre @ [V]) i (target ! n) \<longrightarrow>
                    r ! n = (pre @ [V]) ! 0 + int i)"
  shows "head_nll m input r + (\<Sum>i<length pre. tail_nll m input target i)
           = (\<Sum>n<length target. - (lp ! n ! nat (target ! n)))"
proof -
  let ?N = "length target"
  let ?f = "\<lambda>i n. if in_bin (cutoff m) i (target ! n)
                   then - (tail_lsm m i (input ! n) ! nat (target ! n - cutoff m ! i)) else 0"
  have "(\<Sum>n<?N. - (lp ! n ! nat (target ! n)))
          = (\<Sum>n<?N. - (head_lsm m (input ! n) ! nat (r ! n)) + (\<Sum>i<length pre. ?f i n))"
  proof (rule sum.cong [OF refl])
    fix n assume "n \<in> {..<?N}"
    then have n: "n < ?N" by simp
    have a: "n < length input" using n len by simp
    have b: "0 \<le> target ! n" using tg n by simp
    show "- (lp ! n ! nat (target ! n))
            = - (head_lsm m (input ! n) ! nat (r ! n)) + (\<Sum>i<length pre. ?f i n)"
      using rp n by (intro dense_entry [OF v cm inv a b]) simp_all
  qed
  also have "\<dots> = (\<Sum>n<?N. - (head_lsm m (input ! n) ! nat (r ! n)))
                    + (\<Sum>n<?N. \<Sum>i<length pre. ?f i n)"
    by (rule sum.distrib)
  also have "(\<Sum>n<?N. \<Sum>i<length pre. ?f i n) = (\<Sum>i<length pre. \<Sum>n<?N. ?f i n)"
    by (rule sum.swap)
  also have "\<dots> = (\<Sum>i<length pre. tail_nll m input target i)"
    by (simp add: tail_nll_sum)
  finally show ?thesis by (simp add: head_nll_sum rl)
qed


lemma check_target_Inr: "check_target x tgt j = Inr t \<Longrightarrow> tgt ! j = Some t"
  by (auto simp: check_target_def split: if_splits option.splits sum.splits)

lemma tail_nll_empty: "routed (cutoff m) target i = [] \<Longrightarrow> tail_nll m input target i = 0"
  by (simp add: tail_nll_def)

lemma training_path:
  assumes sh: "shaped m" and v: "valid_cutoff (cutoff m)"
    and cm: "cutoff m = pre @ [V]" and cl: "loss_cutoff c = pre @ [V']" and VV: "V \<le> V'"
    and tg: "\<forall>t \<in> set target. 0 \<le> t \<and> t < V"
    and ne: "input \<noteq> []" and rows: "\<forall>x \<in> set input. int (length x) = nhid m"
    and len: "length input = length target"
  shows "\<exists>out r.
           AdaptiveSoftmax_forward (set_target m target) input
             = Inr (out, filter (\<lambda>i. routed (cutoff m) target i \<noteq> []) [0..<length pre]) \<and>
           out = Some (map (Linear_row (head m)) input) # map (tail_slot m input target) [0..<length pre] \<and>
           remap_target c target = Some r # map (local_ids (pre @ [V']) target) [0..<length pre] \<and>
           CrossEntropyLoss (map (Linear_row (head m)) input) r = Inr (head_nll m input r) \<and>
           (\<forall>i < length pre. routed (cutoff m) target i \<noteq> [] \<longrightarrow>
              (\<exists>x l. out ! Suc i = Some x \<and> remap_target c target ! Suc i = Some l \<and>
                     CrossEntropyLoss x l = Inr (tail_nll m input target i))) \<and>
           AdaptiveLoss_forward c dbg out target
             = Inr ((head_nll m input r + (\<Sum>i<length pre. tail_nll m input target i))
                    / real (length target)) \<and>
           (\<forall>lp. assembled m input (length pre) lp \<longrightarrow>
              head_nll m input r + (\<Sum>i<length pre. tail_nll m input target i)
                = (\<Sum>n<length target. - (lp ! n ! nat (target ! n))))"
proof -
  let ?K = "length pre"
  let ?h = "map (Linear_row (head m)) input"
  let ?out = "Some ?h # map (tail_slot m input target) [0..<?K]"
  have v': "valid_cutoff (pre @ [V])" using v cm by simp
  have K: "length (cutoff m) - 1 = ?K" by (simp add: cm)
  obtain r where r: "remap_target c target = Some r # map (local_ids (pre @ [V']) target) [0..<?K]"
    "length r = length target"
    "\<forall>n < length target.
        0 \<le> r ! n \<and> r ! n < (pre @ [V]) ! 0 + int ?K \<and>
        ((\<forall>i < ?K. \<not> in_bin (pre @ [V]) i (target ! n)) \<longrightarrow>
            r ! n = target ! n \<and> target ! n < (pre @ [V]) ! 0) \<and>
        (\<forall>i < ?K. in_bin (pre @ [V]) i (target ! n) \<longrightarrow> r ! n = (pre @ [V]) ! 0 + int i)"
    using remapped_head [OF v' VV cl tg] by blast
  have rb: "\<forall>n < length target. 0 \<le> r ! n \<and> r ! n < (pre @ [V]) ! 0 + int ?K"
    using r(3) by blast
  have rp: "\<forall>n < length target.
        ((\<forall>i < ?K. \<not> in_bin (pre @ [V]) i (target ! n)) \<longrightarrow>
            r ! n = target ! n \<and> target ! n < (pre @ [V]) ! 0) \<and>
        (\<forall>i < ?K. in_bin (pre @ [V]) i (target ! n) \<longrightarrow> r ! n = (pre @ [V]) ! 0 + int i)"
    using r(3) by blast
  have os: "output_size m = (pre @ [V]) ! 0 + int ?K"
    using shaped_output_size [OF sh] by (simp add: cm)
  have lt: "\<forall>t \<in> set target. t < V" using tg by blast
  have fw: "AdaptiveSoftmax_forward (set_target m target) input
              = Inr (?out, filter (\<lambda>i. routed (cutoff m) target i \<noteq> []) [0..<?K])"
    using forward_closed [OF sh ne rows len] by (simp only: K)
  have hd: "CrossEntropyLoss ?h r = Inr (head_nll m input r)"
  proof -
    have "\<exists>x t. ?out ! 0 = Some x \<and> check_target x (remap_target c target) 0 = Inr t \<and>
               CrossEntropyLoss x t = Inr (head_nll m input r)"
      using rb by (intro head_slot_ok [OF sh ne len r(2)]) (simp_all add: r(1) os)
    then obtain x t where xt: "?out ! 0 = Some x" "check_target x (remap_target c target) 0 = Inr t"
      "CrossEntropyLoss x t = Inr (head_nll m input r)" by blast
    have "x = ?h" using xt(1) by simp
    moreover have "t = r" using check_target_Inr [OF xt(2)] by (simp add: r(1))
    ultimately show ?thesis using xt(3) by simp
  qed
  have tl: "\<exists>x l. ?out ! Suc i = Some x \<and> remap_target c target ! Suc i = Some l \<and>
                  CrossEntropyLoss x l = Inr (tail_nll m input target i)"
    if i: "i < ?K" and ro: "routed (cutoff m) target i \<noteq> []" for i
  proof -
    have ik: "i < length (cutoff m) - 1" using i K by simp
    have li: "local_ids (pre @ [V']) target i
                = Some (map (\<lambda>n. target ! n - cutoff m ! i) (routed (cutoff m) target i))"
      using local_ids_routed [OF lt VV i] ro by (simp add: cm)
    have "\<exists>x t. ?out ! Suc i = Some x \<and> check_target x (remap_target c target) (Suc i) = Inr t \<and>
               CrossEntropyLoss x t = Inr (tail_nll m input target i)"
      using i li by (intro tail_slot_ok [OF sh v ik ro]) (simp_all add: r(1))
    then obtain x t where xt: "?out ! Suc i = Some x"
      "check_target x (remap_target c target) (Suc i) = Inr t"
      "CrossEntropyLoss x t = Inr (tail_nll m input target i)" by blast
    show ?thesis using xt(1,3) check_target_Inr [OF xt(2)] by blast
  qed
  have loss: "AdaptiveLoss_forward c dbg ?out target
                = Inr ((head_nll m input r + (\<Sum>i<?K. tail_nll m input target i))
                       / real (length target))"
    using pipeline_loss [OF sh v cm cl VV tg ne len r(1,2) rb] .
  have dense: "head_nll m input r + (\<Sum>i<?K. tail_nll m input target i)
                 = (\<Sum>n<length target. - (lp ! n ! nat (target ! n)))"
    if "assembled m input ?K lp" for lp
    using tg by (intro dense_nll [OF v cm that len r(2) _ rp]) blast
  show ?thesis using fw r(1) hd tl loss dense by blast
qed


lemma sum_nonempty_bins:
  "(\<Sum>i | i < K \<and> routed (cutoff m) target i \<noteq> []. tail_nll m input target i)
     = (\<Sum>i<K. tail_nll m input target i)"
proof -
  have "{i. i < K \<and> routed (cutoff m) target i \<noteq> []}
          = {i \<in> {..<K}. routed (cutoff m) target i \<noteq> []}" by auto
  then have "(\<Sum>i | i < K \<and> routed (cutoff m) target i \<noteq> []. tail_nll m input target i)
          = (\<Sum>i<K. if routed (cutoff m) target i \<noteq> [] then tail_nll m input target i else 0)"
    by (simp only: sum.inter_filter [OF finite_lessThan])
  also have "\<dots> = (\<Sum>i<K. tail_nll m input target i)"
    by (intro sum.cong refl) (simp add: tail_nll_empty)
  finally show ?thesis .
qed

lemma sum_other_bins:
  assumes "routed (cutoff m) target i = []"
  shows "(\<Sum>k | k < K \<and> k \<noteq> i \<and> routed (cutoff m) target k \<noteq> []. tail_nll m input target k)
     = (\<Sum>k<K. tail_nll m input target k)"
proof -
  have "{k. k < K \<and> k \<noteq> i \<and> routed (cutoff m) target k \<noteq> []}
          = {k. k < K \<and> routed (cutoff m) target k \<noteq> []}"
    using assms by auto
  then show ?thesis by (simp only: sum_nonempty_bins)
qed

text \<open>
  Claim C3. On the training path (\<^verbatim>\<open>set_target\<close>, \<^verbatim>\<open>forward\<close>, then the
  loss), for a non-empty batch of targets in \<open>[0, V)\<close>, the loss is the sum-reduced
  cross-entropy of the head output against the remapped targets plus, for every bin with a
  routed target, the sum-reduced cross-entropy of the bin's tail output against the local
  ids, divided by the batch size; and this is the mean over the batch of minus the entry of
  the target in the dense matrix of \<^verbatim>\<open>log_prob\<close>. The loss cutoffs may end in any
  \<open>V'\<close> from \<open>V\<close> on (\<^verbatim>\<open>main.py\<close> passes \<open>V + 1\<close>).
\<close>

theorem adaptive_loss_value:
  assumes "shaped m" and "valid_cutoff (cutoff m)"
    and "cutoff m = pre @ [V]" and "loss_cutoff c = pre @ [V']" and "V \<le> V'"
    and "\<forall>t \<in> set target. 0 \<le> t \<and> t < V"
    and "input \<noteq> []" and "\<forall>x \<in> set input. int (length x) = nhid m"
    and "length input = length target"
  shows "\<exists>out calls head_out r v0 vt lp.
           AdaptiveSoftmax_forward (set_target m target) input = Inr (out, calls) \<and>
           out ! 0 = Some head_out \<and> remap_target c target ! 0 = Some r \<and>
           CrossEntropyLoss head_out r = Inr v0 \<and>
           (\<forall>i < length pre. routed (cutoff m) target i \<noteq> [] \<longrightarrow>
              (\<exists>x l. out ! Suc i = Some x \<and> remap_target c target ! Suc i = Some l \<and>
                     CrossEntropyLoss x l = Inr (vt i))) \<and>
           AdaptiveLoss_forward c dbg out target
             = Inr ((v0 + (\<Sum>i | i < length pre \<and> routed (cutoff m) target i \<noteq> []. vt i))
                    / real (length target)) \<and>
           log_prob m input = Inr lp \<and>
           AdaptiveLoss_forward c dbg out target
             = Inr ((\<Sum>n<length target. - (lp ! n ! nat (target ! n))) / real (length target))"
proof -
  let ?K = "length pre"
  obtain out r where p:
    "AdaptiveSoftmax_forward (set_target m target) input
       = Inr (out, filter (\<lambda>i. routed (cutoff m) target i \<noteq> []) [0..<?K])"
    "out = Some (map (Linear_row (head m)) input) # map (tail_slot m input target) [0..<?K]"
    "remap_target c target = Some r # map (local_ids (pre @ [V']) target) [0..<?K]"
    "CrossEntropyLoss (map (Linear_row (head m)) input) r = Inr (head_nll m input r)"
    "\<forall>i < ?K. routed (cutoff m) target i \<noteq> [] \<longrightarrow>
        (\<exists>x l. out ! Suc i = Some x \<and> remap_target c target ! Suc i = Some l \<and>
               CrossEntropyLoss x l = Inr (tail_nll m input target i))"
    "AdaptiveLoss_forward c dbg out target
       = Inr ((head_nll m input r + (\<Sum>i<?K. tail_nll m input target i)) / real (length target))"
    "\<forall>lp. assembled m input ?K lp \<longrightarrow>
        head_nll m input r + (\<Sum>i<?K. tail_nll m input target i)
          = (\<Sum>n<length target. - (lp ! n ! nat (target ! n)))"
    using training_path [OF assms, of dbg] by blast
  obtain lp where lp: "log_prob m input = Inr lp" "assembled m input (length (cutoff m) - 1) lp"
    using log_prob_assembled [OF assms(1,2,7,8)] by blast
  have inv: "assembled m input ?K lp" using lp(2) assms(3) by simp
  have a: "out ! 0 = Some (map (Linear_row (head m)) input)" by (simp add: p(2))
  have b: "remap_target c target ! 0 = Some r" by (simp add: p(3))
  have c: "AdaptiveLoss_forward c dbg out target
             = Inr ((head_nll m input r
                     + (\<Sum>i | i < ?K \<and> routed (cutoff m) target i \<noteq> []. tail_nll m input target i))
                    / real (length target))"
    using p(6) by (simp only: sum_nonempty_bins)
  have d: "AdaptiveLoss_forward c dbg out target
             = Inr ((\<Sum>n<length target. - (lp ! n ! nat (target ! n))) / real (length target))"
    using p(6) p(7) inv by simp
  show ?thesis using p(1) a b p(4) p(5) c lp(1) d by blast
qed

theorem adaptive_loss_value_witness:
  "\<exists>out calls head_out r v0 vt lp.
     AdaptiveSoftmax_forward (set_target example_model [0, 2]) [[0], [0]] = Inr (out, calls) \<and>
     out ! 0 = Some head_out \<and> remap_target (AdaptiveLoss_init [1, 4]) [0, 2] ! 0 = Some r \<and>
     CrossEntropyLoss head_out r = Inr v0 \<and>
     (\<forall>i < length [1::int]. routed (cutoff example_model) [0, 2] i \<noteq> [] \<longrightarrow>
        (\<exists>x l. out ! Suc i = Some x \<and> remap_target (AdaptiveLoss_init [1, 4]) [0, 2] ! Suc i = Some l \<and>
               CrossEntropyLoss x l = Inr (vt i))) \<and>
     AdaptiveLoss_forward (AdaptiveLoss_init [1, 4]) Continue out [0, 2]
       = Inr ((v0 + (\<Sum>i | i < length [1::int] \<and> routed (cutoff example_model) [0, 2] i \<noteq> []. vt i))
              / real (length [0, 2::int])) \<and>
     log_prob example_model [[0], [0]] = Inr lp \<and>
     AdaptiveLoss_forward (AdaptiveLoss_init [1, 4]) Continue out [0, 2]
       = Inr ((\<Sum>n<length [0, 2::int]. - (lp ! n ! nat ([0, 2] ! n))) / real (length [0, 2::int]))"
proof -
  have a: "cutoff example_model = [1] @ [3]" by (simp add: example_model_def)
  have b: "loss_cutoff (AdaptiveLoss_init [1, 4]) = [1] @ [4]" by (simp add: AdaptiveLoss_init_def)
  have c: "(3::int) \<le> 4" by simp
  have d: "\<forall>t \<in> set [0, 2::int]. 0 \<le> t \<and> t < 3" by simp
  have e: "[[0], [0::real]] \<noteq> []" by simp
  have f: "\<forall>x \<in> set [[0], [0::real]]. int (length x) = nhid example_model"
    by (simp add: example_model_def)
  have g: "length [[0], [0::real]] = length [0, 2::int]" by simp
  show ?thesis
    by (rule adaptive_loss_value [OF example_model_shaped example_model_valid a b c d e f g])
qed

text \<open>
  Claim C5. When bin \<open>i\<close> receives no target (the mask of the bin sums to 0),
  \<^verbatim>\<open>set_target\<close> stores \<^verbatim>\<open>None\<close> for it, \<^verbatim>\<open>forward\<close> leaves its
  slot \<^verbatim>\<open>None\<close> and does not call its tail classifier, and the loss is the head term
  plus the terms of the other bins only.
\<close>

theorem empty_cluster_skipped:
  assumes "shaped m" and "valid_cutoff (cutoff m)"
    and "cutoff m = pre @ [V]" and "loss_cutoff c = pre @ [V']" and "V \<le> V'"
    and "\<forall>t \<in> set target. 0 \<le> t \<and> t < V"
    and "input \<noteq> []" and "\<forall>x \<in> set input. int (length x) = nhid m"
    and "length input = length target"
    and "i < length pre" and "mask_sum (bin_mask (cutoff m) i target) = 0"
  shows "\<exists>ids out calls head_out r v0 vt.
           id' (set_target m target) = Some ids \<and> ids ! i = None \<and>
           AdaptiveSoftmax_forward (set_target m target) input = Inr (out, calls) \<and>
           out ! Suc i = None \<and> i \<notin> set calls \<and>
           out ! 0 = Some head_out \<and> remap_target c target ! 0 = Some r \<and>
           CrossEntropyLoss head_out r = Inr v0 \<and>
           (\<forall>k < length pre. k \<noteq> i \<and> routed (cutoff m) target k \<noteq> [] \<longrightarrow>
              (\<exists>x l. out ! Suc k = Some x \<and> remap_target c target ! Suc k = Some l \<and>
                     CrossEntropyLoss x l = Inr (vt k))) \<and>
           AdaptiveLoss_forward c dbg out target
             = Inr ((v0 + (\<Sum>k | k < length pre \<and> k \<noteq> i \<and> routed (cutoff m) target k \<noteq> []. vt k))
                    / real (length target))"
proof -
  let ?K = "length pre"
  obtain out r where p:
    "AdaptiveSoftmax_forward (set_target m target) input
       = Inr (out, filter (\<lambda>i. routed (cutoff m) target i \<noteq> []) [0..<?K])"
    "out = Some (map (Linear_row (head m)) input) # map (tail_slot m input target) [0..<?K]"
    "remap_target c target = Some r # map (local_ids (pre @ [V']) target) [0..<?K]"
    "CrossEntropyLoss (map (Linear_row (head m)) input) r = Inr (head_nll m input r)"
    "\<forall>i < ?K. routed (cutoff m) target i \<noteq> [] \<longrightarrow>
        (\<exists>x l. out ! Suc i = Some x \<and> remap_target c target ! Suc i = Some l \<and>
               CrossEntropyLoss x l = Inr (tail_nll m input target i))"
    "AdaptiveLoss_forward c dbg out target
       = Inr ((head_nll m input r + (\<Sum>i<?K. tail_nll m input target i)) / real (length target))"
    using training_path [OF assms(1-9), of dbg] by blast
  have em: "routed (cutoff m) target i = []"
    using assms(11) mask_sum_nonzero [of "bin_mask (cutoff m) i target"] by (simp add: routed_def)
  have K: "length (cutoff m) - 1 = ?K" by (simp add: assms(3))
  have ids: "id' (set_target m target)
               = Some (map (\<lambda>i. if routed (cutoff m) target i = [] then None
                                else Some (routed (cutoff m) target i)) [0..<?K])"
    using set_target_routed [of m target] by (simp only: K)
  have idi: "map (\<lambda>i. if routed (cutoff m) target i = [] then None
                        else Some (routed (cutoff m) target i)) [0..<?K] ! i = None"
    using assms(10) em by simp
  have slot: "out ! Suc i = None" using assms(10) em by (simp add: p(2) tail_slot_def)
  have nocall: "i \<notin> set (filter (\<lambda>i. routed (cutoff m) target i \<noteq> []) [0..<?K])"
    using em by simp
  have a: "out ! 0 = Some (map (Linear_row (head m)) input)" by (simp add: p(2))
  have b: "remap_target c target ! 0 = Some r" by (simp add: p(3))
  have others: "\<forall>k < ?K. k \<noteq> i \<and> routed (cutoff m) target k \<noteq> [] \<longrightarrow>
        (\<exists>x l. out ! Suc k = Some x \<and> remap_target c target ! Suc k = Some l \<and>
               CrossEntropyLoss x l = Inr (tail_nll m input target k))"
    using p(5) by blast
  have c: "AdaptiveLoss_forward c dbg out target
             = Inr ((head_nll m input r
                     + (\<Sum>k | k < ?K \<and> k \<noteq> i \<and> routed (cutoff m) target k \<noteq> [].
                          tail_nll m input target k))
                    / real (length target))"
    using p(6) by (simp only: sum_other_bins [OF em])
  show ?thesis using ids idi p(1) slot nocall a b p(4) others c by blast
qed

theorem empty_cluster_skipped_witness:
  "\<exists>ids out calls head_out r v0 vt.
     id' (set_target example_model [0, 0]) = Some ids \<and> ids ! 0 = None \<and>
     AdaptiveSoftmax_forward (set_target example_model [0, 0]) [[0], [0]] = Inr (out, calls) \<and>
     out ! Suc 0 = None \<and> 0 \<notin> set calls \<and>
     out ! 0 = Some head_out \<and> remap_target (AdaptiveLoss_init [1, 4]) [0, 0] ! 0 = Some r \<and>
     CrossEntropyLoss head_out r = Inr v0 \<and>
     (\<forall>k < length [1::int]. k \<noteq> 0 \<and> routed (cutoff example_model) [0, 0] k \<noteq> [] \<longrightarrow>
        (\<exists>x l. out ! Suc k = Some x \<and> remap_target (AdaptiveLoss_init [1, 4]) [0, 0] ! Suc k = Some l \<and>
               CrossEntropyLoss x l = Inr (vt k))) \<and>
     AdaptiveLoss_forward (AdaptiveLoss_init [1, 4]) Continue out [0, 0]
       = Inr ((v0 + (\<Sum>k | k < length [1::int] \<and> k \<noteq> 0 \<and> routed (cutoff example_model) [0, 0] k \<noteq> []. vt k))
              / real (length [0, 0::int]))"
proof -
  have a: "cutoff example_model = [1] @ [3]" by (simp add: example_model_def)
  have b: "loss_cutoff (AdaptiveLoss_init [1, 4]) = [1] @ [4]" by (simp add: AdaptiveLoss_init_def)
  have c: "(3::int) \<le> 4" by simp
  have d: "\<forall>t \<in> set [0, 0::int]. 0 \<le> t \<and> t < 3" by simp
  have e: "[[0], [0::real]] \<noteq> []" by simp
  have f: "\<forall>x \<in> set [[0], [0::real]]. int (length x) = nhid example_model"
    by (simp add: example_model_def)
  have g: "length [[0], [0::real]] = length [0, 0::int]" by simp
  have h: "(0::nat) < length [1::int]" by simp
  have i: "mask_sum (bin_mask (cutoff example_model) 0 [0, 0]) = 0"
    by (simp add: example_model_def mask_sum_def bin_mask_def mul_def ge_def lt_def)
  show ?thesis
    by (rule empty_cluster_skipped [OF example_model_shaped example_model_valid a b c d e f g h i])
qed

section \<open>Out-of-range local ids\<close>


lemma example_forward_3:
  "AdaptiveSoftmax_forward (set_target example_model [3]) [[0]] = Inr ([Some [[0, 0]], None], [])"
  by (simp add: AdaptiveSoftmax_forward_def set_target_def example_model_def Linear_forward_def
      Linear_row_def dot_def bin_mask_def mul_def ge_def lt_def mask_sum_def)

lemma example_forward_23:
  "AdaptiveSoftmax_forward (set_target example_model [2, 3]) [[0], [0]]
     = Inr ([Some [[0, 0], [0, 0]], Some [[0, 0]]], [0])"
  by (simp add: AdaptiveSoftmax_forward_def set_target_def example_model_def Linear_forward_def
      Linear_row_def dot_def bin_mask_def mul_def ge_def lt_def mask_sum_def nonzero_def
      index_select_def Sequential_forward_def upt_rec [of _ "numeral _"])

lemma example_remap_3: "remap_target (AdaptiveLoss_init [1, 4]) [3] = [Some [1], Some [2]]"
  by (simp add: remap_target_def AdaptiveLoss_init_def remap_step_def bin_mask_def mul_def ge_def
      lt_def mask_sum_def masked_fill_def masked_select_def add_scalar_def)

lemma example_remap_23: "remap_target (AdaptiveLoss_init [1, 4]) [2, 3] = [Some [1, 1], Some [1, 2]]"
  by (simp add: remap_target_def AdaptiveLoss_init_def remap_step_def bin_mask_def mul_def ge_def
      lt_def mask_sum_def masked_fill_def masked_select_def add_scalar_def)

text \<open>
  Claim C9, evaluated on the code. The model has the cutoffs \<open>[1, 3]\<close> (vocabulary size
  3, one bin \<open>[1, 3)\<close> whose tail classifier has 2 columns), the loss the cutoffs
  \<open>[1, 4]\<close>, as \<^verbatim>\<open>main.py\<close> builds them. Target id 3 gets the local id 2 in the
  loss, outside the columns \<open>[0, 2)\<close> of the tail classifier.
  \<^item> Batch \<open>[3]\<close>: the model routes nothing to the bin, the slot is \<^verbatim>\<open>None\<close>
    and the loss returns \<open>ln 2\<close>; nothing is raised.
  \<^item> Batch \<open>[2, 3]\<close>: the slot holds one row; the assertion accepts the local ids
    \<open>[1, 2]\<close> because it compares with \<^verbatim>\<open><=\<close>, the criterion raises, the handler
    opens the debugger, and on resuming the loss returns \<open>ln 2\<close> without the term of
    the bin. Only quitting the debugger ends the batch, with \<^verbatim>\<open>BdbQuit\<close>.
\<close>

theorem out_of_range_local_id_not_fatal:
  "AdaptiveSoftmax_forward (set_target example_model [3]) [[0]] = Inr ([Some [[0, 0]], None], []) \<and>
   remap_target (AdaptiveLoss_init [1, 4]) [3] = [Some [1], Some [2]] \<and>
   AdaptiveLoss_forward (AdaptiveLoss_init [1, 4]) dbg [Some [[0, 0]], None] [3] = Inr (ln 2) \<and>
   AdaptiveSoftmax_forward (set_target example_model [2, 3]) [[0], [0]]
     = Inr ([Some [[0, 0], [0, 0]], Some [[0, 0]]], [0]) \<and>
   remap_target (AdaptiveLoss_init [1, 4]) [2, 3] = [Some [1, 1], Some [1, 2]] \<and>
   check_target [[0, 0]] [Some [1, 1], Some [1, 2]] 1 = Inr [1, 2] \<and>
   CrossEntropyLoss [[0, 0]] [1, 2] = Inl RuntimeError \<and>
   AdaptiveLoss_forward (AdaptiveLoss_init [1, 4]) Continue
     [Some [[0, 0], [0, 0]], Some [[0, 0]]] [2, 3] = Inr (ln 2) \<and>
   AdaptiveLoss_forward (AdaptiveLoss_init [1, 4]) Quit
     [Some [[0, 0], [0, 0]], Some [[0, 0]]] [2, 3] = Inl BdbQuit"
proof -
  have ce1: "CrossEntropyLoss [[0, 0]] [1] = Inr (ln 2)"
    by (simp add: CrossEntropyLoss_def log_softmax_row_def)
  have ce2: "CrossEntropyLoss [[0, 0], [0, 0]] [1, 1] = Inr (2 * ln 2)"
    by (simp add: CrossEntropyLoss_def log_softmax_row_def)
  have ce3: "CrossEntropyLoss [[0, 0]] [1, 2] = Inl RuntimeError"
    by (simp add: CrossEntropyLoss_def)
  have ck1: "check_target [[0, 0]] [Some [1], Some [2]] 0 = Inr [1]"
    by (simp add: check_target_def size1_def)
  have ck2: "check_target [[0, 0], [0, 0]] [Some [1, 1], Some [1, 2]] 0 = Inr [1, 1]"
    by (simp add: check_target_def size1_def)
  have ck3: "check_target [[0, 0]] [Some [1, 1], Some [1, 2]] 1 = Inr [1, 2]"
    by (simp add: check_target_def size1_def)
  have l1: "AdaptiveLoss_forward (AdaptiveLoss_init [1, 4]) dbg [Some [[0, 0]], None] [3] = Inr (ln 2)"
    by (simp add: AdaptiveLoss_forward_def example_remap_3 ck1 ce1 upt_rec [of _ "numeral _"])
  have l2: "AdaptiveLoss_forward (AdaptiveLoss_init [1, 4]) Continue
              [Some [[0, 0], [0, 0]], Some [[0, 0]]] [2, 3] = Inr (ln 2)"
    by (simp add: AdaptiveLoss_forward_def example_remap_23 ck2 ck3 [unfolded One_nat_def] ce2 ce3
        Let_def upt_rec [of _ "numeral _"])
  have l3: "AdaptiveLoss_forward (AdaptiveLoss_init [1, 4]) Quit
              [Some [[0, 0], [0, 0]], Some [[0, 0]]] [2, 3] = Inl BdbQuit"
    by (simp add: AdaptiveLoss_forward_def example_remap_23 ck2 ck3 [unfolded One_nat_def] ce2 ce3
        Let_def upt_rec [of _ "numeral _"])
  show ?thesis
    using example_forward_3 example_remap_3 l1 example_forward_23 example_remap_23 ck3 ce3 l2 l3
    by blast
qed

theorem out_of_range_local_id_not_fatal_witness:
  "AdaptiveLoss_forward (AdaptiveLoss_init [1, 4]) Quit [Some [[0, 0]], None] [3] = Inr (ln 2) \<and>
   AdaptiveLoss_forward (AdaptiveLoss_init [1, 4]) Continue
     [Some [[0, 0], [0, 0]], Some [[0, 0]]] [2, 3] = Inr (ln 2)"
  using out_of_range_local_id_not_fatal [of Quit] by blast

text \<open>The assertion does end the batch once a class exceeds the width of the output.\<close>

lemma assertion_fires_beyond_width:
  "AdaptiveLoss_forward (AdaptiveLoss_init [1, 4]) dbg [Some [[0, 0]], None] [4] = Inl AssertionError"
proof -
  have "remap_target (AdaptiveLoss_init [1, 4]) [4] = [Some [4], None]"
    by (simp add: remap_target_def AdaptiveLoss_init_def remap_step_def bin_mask_def mul_def ge_def
        lt_def mask_sum_def masked_fill_def)
  moreover have "check_target [[0, 0]] [Some [4], None] 0 = Inl AssertionError"
    by (simp add: check_target_def size1_def)
  ultimately show ?thesis
    by (simp add: AdaptiveLoss_forward_def upt_rec [of _ "numeral _"])
qed

section \<open>Construction\<close>










text \<open>
  The constructor hands the layers of the library on unchanged, so their shape is the
  library's.
\<close>

lemma init_tail_shaped:
  assumes L: "\<forall>i out b l. L i out b = Inr l \<longrightarrow> Linear_shape l i out b"
  shows "init_tail L nh cs [a..<n] acc = Inr t \<Longrightarrow> length acc = a \<Longrightarrow> a \<le> n \<Longrightarrow>
         \<forall>i < a. Linear_shape (fst (acc ! i)) nh (nh div 4 ^ i) False \<and>
                 Linear_shape (snd (acc ! i)) (nh div 4 ^ i) (cs ! (i + 1) - cs ! i) False \<Longrightarrow>
         length t = n \<and>
         (\<forall>i < n. Linear_shape (fst (t ! i)) nh (nh div 4 ^ i) False \<and>
                  Linear_shape (snd (t ! i)) (nh div 4 ^ i) (cs ! (i + 1) - cs ! i) False)"
proof (induction "n - a" arbitrary: a acc)
  case 0
  then show ?case by simp
next
  case (Suc d)
  then have an: "a < n" by simp
  have up: "[a..<n] = a # [Suc a..<n]" using an by (simp add: upt_conv_Cons)
  show ?case
  proof (cases "L nh (nh div 4 ^ a) False")
    case (Inl e)
    then show ?thesis using Suc.prems(1) up by simp
  next
    case l1: (Inr l1)
    show ?thesis
    proof (cases "L (nh div 4 ^ a) (cs ! (a + 1) - cs ! a) False")
      case (Inl e)
      then show ?thesis using Suc.prems(1) up l1 by simp
    next
      case l2: (Inr l2)
      have s1: "Linear_shape l1 nh (nh div 4 ^ a) False" using L l1 by blast
      have s2: "Linear_shape l2 (nh div 4 ^ a) (cs ! (a + 1) - cs ! a) False" using L l2 by blast
      have rec: "init_tail L nh cs [Suc a..<n] (acc @ [(l1, l2)]) = Inr t"
        using Suc.prems(1) up l1 l2 by simp
      have inv: "\<forall>i < Suc a. Linear_shape (fst ((acc @ [(l1, l2)]) ! i)) nh (nh div 4 ^ i) False \<and>
                   Linear_shape (snd ((acc @ [(l1, l2)]) ! i)) (nh div 4 ^ i) (cs ! (i + 1) - cs ! i) False"
        using Suc.prems(2,4) s1 s2 by (auto simp: nth_append less_Suc_eq)
      show ?thesis
        using Suc.hyps(1) [of "Suc a" "acc @ [(l1, l2)]", OF _ rec _ _ inv] Suc.hyps(2) Suc.prems(2) an
        by simp
    qed
  qed
qed

text \<open>
  A model built by the constructor from a layer library that delivers layers of the
  requested shape has the shape the theorems above assume.
\<close>

lemma init_shaped:
  assumes L: "\<forall>i out b l. L i out b = Inr l \<longrightarrow> Linear_shape l i out b"
    and m: "AdaptiveSoftmax_init L nh cs = Inr m"
  shows "shaped m \<and> cutoff m = cs \<and> nhid m = nh"
proof -
  obtain c0 rest where c: "cs = c0 # rest"
    using m by (cases cs) (simp_all add: AdaptiveSoftmax_init_def)
  obtain h where h: "L nh (c0 + int (length cs) - 1) True = Inr h"
    using m c by (cases "L nh (c0 + int (length cs) - 1) True") (simp_all add: AdaptiveSoftmax_init_def)
  obtain t where t: "init_tail L nh cs [0..<length cs - 1] [] = Inr t"
    using m c h by (cases "init_tail L nh cs [0..<length cs - 1] []")
      (simp_all add: AdaptiveSoftmax_init_def)
  have meq: "m = \<lparr>nhid = nh, cutoff = cs, output_size = c0 + int (length cs) - 1,
                   head = h, tail = t, id' = None\<rparr>"
    using m c h t by (simp add: AdaptiveSoftmax_init_def)
  have hs: "Linear_shape h nh (c0 + int (length cs) - 1) True" using L h by blast
  have ts: "length t = length cs - 1 \<and>
         (\<forall>i < length cs - 1. Linear_shape (fst (t ! i)) nh (nh div 4 ^ i) False \<and>
                  Linear_shape (snd (t ! i)) (nh div 4 ^ i) (cs ! (i + 1) - cs ! i) False)"
    using init_tail_shaped [OF L t] by simp
  show ?thesis
    unfolding shaped_def meq using hs ts c by (simp add: list_all_iff)
qed

lemma example_model_init: "AdaptiveSoftmax_init Linear_positive 1 [1, 3] = Inr example_model"
  by (simp add: AdaptiveSoftmax_init_def Linear_positive_def example_model_def numeral_2_eq_2)

end
